theory Spec2Isabelle
  imports Complex_Main "HOL-Library.Word"
begin

section \<open>JavaScript values used by the core library\<close>

text \<open>
  A JavaScript string is a sequence of UTF-16 code units. String literals of the
  source are ASCII and are written with \<open>lit\<close>.
\<close>

type_synonym code_unit = "16 word"
type_synonym jsstring = "code_unit list"
type_synonym byte = "8 word"

definition lit :: "string \<Rightarrow> jsstring" where
  "lit s = map (\<lambda>c. of_nat (of_char c)) s"

section \<open>DeviceFingerprinter.compare\<close>

text \<open>
  \<^verbatim>\<open>interface DeviceFingerprint\<close> of types.ts. The number fields hold integers
  (screen depth, minutes, core count, gigabytes); \<^verbatim>\<open>T | null\<close> is an option.
\<close>

record DeviceFingerprint =
  screenResolution :: jsstring
  colorDepth :: int
  timezoneOffset :: int
  timezone :: jsstring
  language :: jsstring
  languages :: "jsstring list"
  platform :: jsstring
  hardwareConcurrency :: int
  deviceMemory :: "int option"
  touchSupport :: bool
  canvasHash :: "jsstring option"
  webglRenderer :: "jsstring option"
  webglVendor :: "jsstring option"
  collectedAt :: jsstring

record FingerprintComparisonResult =
  similarity :: rat
  mismatches :: "string list"

text \<open>\<^verbatim>\<open>keyof DeviceFingerprint\<close>: the fourteen property names.\<close>

datatype fp_key =
    K_screenResolution | K_colorDepth | K_timezoneOffset | K_timezone | K_language
  | K_languages | K_platform | K_hardwareConcurrency | K_deviceMemory | K_touchSupport
  | K_canvasHash | K_webglRenderer | K_webglVendor | K_collectedAt

fun key_name :: "fp_key \<Rightarrow> string" where
  "key_name K_screenResolution = ''screenResolution''"
| "key_name K_colorDepth = ''colorDepth''"
| "key_name K_timezoneOffset = ''timezoneOffset''"
| "key_name K_timezone = ''timezone''"
| "key_name K_language = ''language''"
| "key_name K_languages = ''languages''"
| "key_name K_platform = ''platform''"
| "key_name K_hardwareConcurrency = ''hardwareConcurrency''"
| "key_name K_deviceMemory = ''deviceMemory''"
| "key_name K_touchSupport = ''touchSupport''"
| "key_name K_canvasHash = ''canvasHash''"
| "key_name K_webglRenderer = ''webglRenderer''"
| "key_name K_webglVendor = ''webglVendor''"
| "key_name K_collectedAt = ''collectedAt''"

text \<open>
  The value \<^verbatim>\<open>fp[field]\<close> of a property, and \<^verbatim>\<open>===\<close> on such values: equal
  tags and equal contents, \<^verbatim>\<open>null === null\<close>. (An array is compared by identity
  in JavaScript, which a value cannot show; \<open>compare\<close> reads no array property.)
\<close>

datatype jsval = JNum int | JStr jsstring | JBool bool | JNull | JArr "jsstring list"

fun nullable :: "('a \<Rightarrow> jsval) \<Rightarrow> 'a option \<Rightarrow> jsval" where
  "nullable f None = JNull"
| "nullable f (Some x) = f x"

fun field_value :: "DeviceFingerprint \<Rightarrow> fp_key \<Rightarrow> jsval" where
  "field_value fp K_screenResolution = JStr (screenResolution fp)"
| "field_value fp K_colorDepth = JNum (colorDepth fp)"
| "field_value fp K_timezoneOffset = JNum (timezoneOffset fp)"
| "field_value fp K_timezone = JStr (timezone fp)"
| "field_value fp K_language = JStr (language fp)"
| "field_value fp K_languages = JArr (languages fp)"
| "field_value fp K_platform = JStr (platform fp)"
| "field_value fp K_hardwareConcurrency = JNum (hardwareConcurrency fp)"
| "field_value fp K_deviceMemory = nullable JNum (deviceMemory fp)"
| "field_value fp K_touchSupport = JBool (touchSupport fp)"
| "field_value fp K_canvasHash = nullable JStr (canvasHash fp)"
| "field_value fp K_webglRenderer = nullable JStr (webglRenderer fp)"
| "field_value fp K_webglVendor = nullable JStr (webglVendor fp)"
| "field_value fp K_collectedAt = JStr (collectedAt fp)"

fun strict_equals :: "jsval \<Rightarrow> jsval \<Rightarrow> bool" where
  "strict_equals (JNum a) (JNum b) = (a = b)"
| "strict_equals (JStr a) (JStr b) = (a = b)"
| "strict_equals (JBool a) (JBool b) = (a = b)"
| "strict_equals JNull JNull = True"
| "strict_equals (JArr a) (JArr b) = (a = b)"
| "strict_equals _ _ = False"

definition fieldsToCompare :: "fp_key list" where
  "fieldsToCompare =
     [K_screenResolution, K_colorDepth, K_timezone, K_language, K_platform,
      K_hardwareConcurrency, K_canvasHash, K_webglRenderer]"

text \<open>
  The \<^verbatim>\<open>for (const field of fieldsToCompare)\<close> loop, with its two variables
  \<^verbatim>\<open>matches\<close> and \<^verbatim>\<open>mismatches\<close> as the accumulator.
\<close>

fun compare_loop ::
  "DeviceFingerprint \<Rightarrow> DeviceFingerprint \<Rightarrow> fp_key list \<Rightarrow> nat \<times> string list \<Rightarrow> nat \<times> string list"
where
  "compare_loop current previous [] acc = acc"
| "compare_loop current previous (field # rest) (matches, mism) =
     (if strict_equals (field_value current field) (field_value previous field)
      then compare_loop current previous rest (matches + 1, mism)
      else compare_loop current previous rest (matches, mism @ [key_name field]))"

definition compare :: "DeviceFingerprint \<Rightarrow> DeviceFingerprint \<Rightarrow> FingerprintComparisonResult" where
  "compare current previous =
     (case compare_loop current previous fieldsToCompare (0, []) of
        (matches, mism) \<Rightarrow>
          \<lparr> similarity = of_nat matches / of_nat (length fieldsToCompare),
            mismatches = mism \<rparr>)"

text \<open>
  The statement of the comparison in the specification's own terms: the eight designated
  properties in their fixed order, each with the truth of its field equality.
\<close>

definition field_matches :: "DeviceFingerprint \<Rightarrow> DeviceFingerprint \<Rightarrow> (string \<times> bool) list" where
  "field_matches c p =
     [(''screenResolution'', screenResolution c = screenResolution p),
      (''colorDepth'', colorDepth c = colorDepth p),
      (''timezone'', timezone c = timezone p),
      (''language'', language c = language p),
      (''platform'', platform c = platform p),
      (''hardwareConcurrency'', hardwareConcurrency c = hardwareConcurrency p),
      (''canvasHash'', canvasHash c = canvasHash p),
      (''webglRenderer'', webglRenderer c = webglRenderer p)]"

definition same_compared :: "DeviceFingerprint \<Rightarrow> DeviceFingerprint \<Rightarrow> bool" where
  "same_compared a b \<longleftrightarrow>
     screenResolution a = screenResolution b \<and> colorDepth a = colorDepth b \<and>
     timezone a = timezone b \<and> language a = language b \<and> platform a = platform b \<and>
     hardwareConcurrency a = hardwareConcurrency b \<and> canvasHash a = canvasHash b \<and>
     webglRenderer a = webglRenderer b"

text \<open>Two sample fingerprints: the second differs in four compared and two other fields.\<close>

definition fp0 :: DeviceFingerprint where
  "fp0 = \<lparr> screenResolution = lit ''1920x1080'', colorDepth = 24, timezoneOffset = -60,
     timezone = lit ''Europe/Rome'', language = lit ''it-IT'',
     languages = [lit ''it-IT'', lit ''en''], platform = lit ''MacIntel'',
     hardwareConcurrency = 8, deviceMemory = Some 8, touchSupport = False,
     canvasHash = Some (lit ''abc123''), webglRenderer = None, webglVendor = None,
     collectedAt = lit ''2024-01-01T00:00:00.000Z'' \<rparr>"

definition fp1 :: DeviceFingerprint where
  "fp1 = fp0\<lparr> colorDepth := 32, language := lit ''en-US'', canvasHash := None,
     webglRenderer := Some (lit ''ANGLE''), touchSupport := True, deviceMemory := None \<rparr>"

definition fp2 :: DeviceFingerprint where
  "fp2 = fp0\<lparr> collectedAt := lit ''2024-06-01T00:00:00.000Z'', languages := [],
     webglVendor := Some (lit ''Intel''), timezoneOffset := 0, touchSupport := True,
     deviceMemory := Some 16 \<rparr>"

subsection \<open>Properties of compare\<close>

lemma strict_equals_eq: "strict_equals a b = (a = b)"
  by (cases a; cases b) simp_all

lemma nullable_JStr_eq: "(nullable JStr a = nullable JStr b) = (a = b)"
  by (cases a; cases b) simp_all

lemma compare_loop_filter:
  "compare_loop c p fs (m, mis) =
     (m + length (filter (\<lambda>f. field_value c f = field_value p f) fs),
      mis @ map key_name (filter (\<lambda>f. field_value c f \<noteq> field_value p f) fs))"
  by (induction fs arbitrary: m mis) (simp_all add: strict_equals_eq)

lemma field_matches_eq:
  "map (\<lambda>f. (key_name f, field_value c f = field_value p f)) fieldsToCompare = field_matches c p"
  by (simp add: fieldsToCompare_def field_matches_def nullable_JStr_eq)

lemma compare_field_matches:
  "compare c p =
     \<lparr> similarity = of_nat (length (filter snd (field_matches c p))) / 8,
       mismatches = map fst (filter (\<lambda>x. \<not> snd x) (field_matches c p)) \<rparr>"
proof -
  have len: "length fieldsToCompare = 8"
    by (simp add: fieldsToCompare_def)
  have m: "length (filter (\<lambda>f. field_value c f = field_value p f) fieldsToCompare)
             = length (filter snd (field_matches c p))"
    unfolding field_matches_eq [symmetric] by (simp add: filter_map comp_def)
  have mm: "map key_name (filter (\<lambda>f. field_value c f \<noteq> field_value p f) fieldsToCompare)
             = map fst (filter (\<lambda>x. \<not> snd x) (field_matches c p))"
    unfolding field_matches_eq [symmetric] by (simp add: filter_map comp_def)
  show ?thesis
    by (simp add: compare_def compare_loop_filter len m mm)
qed

lemma same_compared_matches:
  "same_compared c c' \<Longrightarrow> same_compared p p' \<Longrightarrow> field_matches c' p' = field_matches c p"
  by (simp add: same_compared_def field_matches_def)

text \<open>
  C9. For every pair of fingerprints, \<open>compare\<close> looks at exactly the eight designated
  fields: the similarity is the number of equal fields among them divided by 8, the
  mismatches are the names of the unequal ones in the fixed comparison order, equality
  is exact (two \<open>null\<close>s are equal, \<open>null\<close> differs from every string), and two pairs
  of fingerprints that agree on the eight fields get the same result whatever their
  timestamp, languages list, device memory, touch support, timezone offset and WebGL
  vendor are.
\<close>

theorem compare_eight_fields:
  "similarity (compare c p) = of_nat (length (filter snd (field_matches c p))) / 8
   \<and> mismatches (compare c p) = map fst (filter (\<lambda>x. \<not> snd x) (field_matches c p))
   \<and> (\<forall>c' p'. same_compared c c' \<and> same_compared p p' \<longrightarrow> compare c' p' = compare c p)"
proof (intro conjI allI impI)
  fix c' p' assume "same_compared c c' \<and> same_compared p p'"
  then have "field_matches c' p' = field_matches c p"
    by (simp add: same_compared_matches)
  then show "compare c' p' = compare c p"
    by (simp add: compare_field_matches)
qed (simp_all add: compare_field_matches)

theorem compare_eight_fields_witness:
  "similarity (compare fp0 fp1) = 1 / 2
   \<and> mismatches (compare fp0 fp1) = [''colorDepth'', ''language'', ''canvasHash'', ''webglRenderer'']
   \<and> same_compared fp0 fp2 \<and> fp2 \<noteq> fp0
   \<and> compare fp2 fp1 = compare fp0 fp1"
proof -
  have a: "same_compared fp0 fp2"
    by (simp add: same_compared_def fp2_def)
  have b: "same_compared fp1 fp1"
    by (simp add: same_compared_def)
  have ne: "touchSupport fp2 \<noteq> touchSupport fp0"
    by (simp add: fp2_def fp0_def)
  have fm: "field_matches fp0 fp1 = [(''screenResolution'', True),
      (''colorDepth'', False), (''timezone'', True), (''language'', False), (''platform'', True),
      (''hardwareConcurrency'', True), (''canvasHash'', False), (''webglRenderer'', False)]"
    by (simp add: field_matches_def fp0_def fp1_def lit_def)
  from ne have "fp2 \<noteq> fp0" by auto
  with compare_eight_fields [of fp0 fp1] a b fm show ?thesis
    by simp
qed

section \<open>SessionGuardian\<close>

subsection \<open>Configuration\<close>

text \<open>
  The four options of \<^verbatim>\<open>Nis2Config\<close> the guardian reads. The constructor takes a
  partial configuration (an absent option is \<open>None\<close>) and fills in the defaults with
  \<^verbatim>\<open>??\<close>. Times are whole milliseconds, the timeout is in whole minutes.
\<close>

record GuardianConfig =
  idleTimeoutMinutes :: int
  activityEvents :: "string list"
  activityThrottleMs :: int
  debug :: bool

record PartialConfig =
  opt_idleTimeoutMinutes :: "int option"
  opt_activityEvents :: "string list option"
  opt_activityThrottleMs :: "int option"
  opt_debug :: "bool option"

definition DEFAULT_ACTIVITY_EVENTS :: "string list" where
  "DEFAULT_ACTIVITY_EVENTS = [''mousedown'', ''mousemove'', ''keydown'', ''scroll'', ''touchstart'']"

definition DEFAULT_THROTTLE_MS :: int where
  "DEFAULT_THROTTLE_MS = 1000"

definition DEFAULT_TIMEOUT_MINUTES :: int where
  "DEFAULT_TIMEOUT_MINUTES = 15"

fun nullish :: "'a option \<Rightarrow> 'a \<Rightarrow> 'a" where
  "nullish None d = d"
| "nullish (Some v) d = v"

definition make_config :: "PartialConfig \<Rightarrow> GuardianConfig" where
  "make_config c =
     \<lparr> idleTimeoutMinutes = nullish (opt_idleTimeoutMinutes c) DEFAULT_TIMEOUT_MINUTES,
       activityEvents = nullish (opt_activityEvents c) DEFAULT_ACTIVITY_EVENTS,
       activityThrottleMs = nullish (opt_activityThrottleMs c) DEFAULT_THROTTLE_MS,
       debug = nullish (opt_debug c) False \<rparr>"

definition no_options :: PartialConfig where
  "no_options = \<lparr> opt_idleTimeoutMinutes = None, opt_activityEvents = None,
                   opt_activityThrottleMs = None, opt_debug = None \<rparr>"

subsection \<open>The guardian and the page it runs in\<close>

text \<open>
  The events the guardian emits, with their payloads: \<^verbatim>\<open>idle\<close> carries
  \<^verbatim>\<open>idleSince\<close> and \<^verbatim>\<open>timeoutMinutes\<close>, \<^verbatim>\<open>visibility-change\<close> carries
  \<^verbatim>\<open>hidden\<close>, \<^verbatim>\<open>warning\<close> carries \<^verbatim>\<open>secondsRemaining\<close>.
\<close>

datatype emission =
    Ev_idle int int
  | Ev_active
  | Ev_visibility_change bool
  | Ev_warning int

text \<open>The two arrow functions that \<^verbatim>\<open>resetTimer\<close> hands to \<^verbatim>\<open>setTimeout\<close>.\<close>

datatype callback = WarningCallback | IdleCallback

record timeout_entry =
  handle :: nat
  due :: int
  callback :: callback

text \<open>
  One record holds the private fields of the guardian (\<open>config\<close> to \<open>isRunning\<close>)
  and the part of the page it acts on: the clock that \<^verbatim>\<open>Date.now()\<close> reads, the
  pending timeouts in the order they were set, the next timeout handle (handles are
  positive, so a handle is truthy), \<^verbatim>\<open>document.hidden\<close>, the event types for which
  \<^verbatim>\<open>boundHandleActivity\<close> is registered on \<^verbatim>\<open>window\<close>, and whether
  \<^verbatim>\<open>boundHandleVisibility\<close> is registered on \<^verbatim>\<open>document\<close>. \<open>emitted\<close> is the
  trace of the calls of \<^verbatim>\<open>emit\<close>: handlers registered with \<^verbatim>\<open>on\<close> observe the
  events and do not call back into the guardian.
\<close>

record page =
  config :: GuardianConfig
  timer :: "nat option"
  lastActivity :: int
  isIdle :: bool
  isRunning :: bool
  clock :: int
  pending :: "timeout_entry list"
  nextHandle :: nat
  documentHidden :: bool
  windowListeners :: "string list"
  visibilityListener :: bool
  emitted :: "emission list"

text \<open>
  \<^verbatim>\<open>setTimeout(cb, delay)\<close> queues the callback and returns a fresh handle. The
  platform converts the delay to a signed 32-bit integer, wrapping around, and counts
  a negative result as 0: a delay from 2147483648 up to 4294967295 ms wraps to a negative number, so that the
  callback fires at once.
  \<^verbatim>\<open>clearTimeout\<close> removes the entry with that handle, if it is still pending.
\<close>

definition to_int32 :: "int \<Rightarrow> int" where
  "to_int32 n =
     (let m = n mod 4294967296 in if m \<ge> 2147483648 then m - 4294967296 else m)"

definition timer_delay :: "int \<Rightarrow> int" where
  "timer_delay delay = max 0 (to_int32 delay)"

definition setTimeout :: "callback \<Rightarrow> int \<Rightarrow> page \<Rightarrow> nat \<times> page" where
  "setTimeout cb delay s =
     (nextHandle s,
      s\<lparr> pending := pending s @
           [\<lparr> handle = nextHandle s, due = clock s + timer_delay delay, callback = cb \<rparr>],
         nextHandle := nextHandle s + 1 \<rparr>)"

definition clearTimeout :: "nat \<Rightarrow> page \<Rightarrow> page" where
  "clearTimeout h s = s\<lparr> pending := filter (\<lambda>t. handle t \<noteq> h) (pending s) \<rparr>"

definition addEventListener :: "string \<Rightarrow> page \<Rightarrow> page" where
  "addEventListener ev s =
     (if ev \<in> set (windowListeners s) then s
      else s\<lparr> windowListeners := windowListeners s @ [ev] \<rparr>)"

definition removeEventListener :: "string \<Rightarrow> page \<Rightarrow> page" where
  "removeEventListener ev s = s\<lparr> windowListeners := filter (\<lambda>e. e \<noteq> ev) (windowListeners s) \<rparr>"

definition emit :: "emission \<Rightarrow> page \<Rightarrow> page" where
  "emit e s = s\<lparr> emitted := emitted s @ [e] \<rparr>"

text \<open>\<^verbatim>\<open>new SessionGuardian(config)\<close> in a page whose clock shows \<open>now\<close>.\<close>

definition new_SessionGuardian :: "PartialConfig \<Rightarrow> int \<Rightarrow> page" where
  "new_SessionGuardian c now =
     \<lparr> config = make_config c, timer = None, lastActivity = now, isIdle = False,
       isRunning = False, clock = now, pending = [], nextHandle = 1,
       documentHidden = False, windowListeners = [], visibilityListener = False,
       emitted = [] \<rparr>"

subsection \<open>The methods\<close>

definition timeoutMs :: "page \<Rightarrow> int" where
  "timeoutMs s = idleTimeoutMinutes (config s) * 60 * 1000"

definition triggerIdle :: "page \<Rightarrow> page" where
  "triggerIdle s =
     (if isIdle s then s
      else emit (Ev_idle (lastActivity s) (idleTimeoutMinutes (config s))) (s\<lparr> isIdle := True \<rparr>))"

definition resetTimer :: "page \<Rightarrow> page" where
  "resetTimer s =
     (let s1 = (case timer s of Some h \<Rightarrow> clearTimeout h s | None \<Rightarrow> s);
          warningMs = timeoutMs s1 - 60000;
          s2 = (if warningMs > 0 then snd (setTimeout WarningCallback warningMs s1) else s1);
          (h, s3) = setTimeout IdleCallback (timeoutMs s2) s2
      in s3\<lparr> timer := Some h \<rparr>)"

definition start :: "page \<Rightarrow> page" where
  "start s =
     (if isRunning s then s
      else
        let s1 = s\<lparr> isRunning := True \<rparr>;
            s2 = fold addEventListener (activityEvents (config s1)) s1;
            s3 = s2\<lparr> visibilityListener := True \<rparr>
        in resetTimer s3)"

definition stop :: "page \<Rightarrow> page" where
  "stop s =
     (if \<not> isRunning s then s
      else
        let s1 = s\<lparr> isRunning := False \<rparr>;
            s2 = (case timer s1 of Some h \<Rightarrow> (clearTimeout h s1)\<lparr> timer := None \<rparr> | None \<Rightarrow> s1);
            s3 = fold removeEventListener (activityEvents (config s2)) s2
        in s3\<lparr> visibilityListener := False \<rparr>)"

definition reset :: "page \<Rightarrow> page" where
  "reset s =
     (let s1 = s\<lparr> lastActivity := clock s \<rparr>;
          s2 = (if isIdle s1 then emit Ev_active (s1\<lparr> isIdle := False \<rparr>) else s1)
      in resetTimer s2)"

definition getIsIdle :: "page \<Rightarrow> bool" where
  "getIsIdle s = isIdle s"

definition getTimeRemaining :: "page \<Rightarrow> int" where
  "getTimeRemaining s =
     (let elapsed = clock s - lastActivity s;
          timeout = idleTimeoutMinutes (config s) * 60 * 1000
      in max 0 (timeout - elapsed))"

definition handleActivity :: "page \<Rightarrow> page" where
  "handleActivity s =
     (let now = clock s in
      if now - lastActivity s < activityThrottleMs (config s) then s
      else
        let s1 = s\<lparr> lastActivity := now \<rparr>;
            s2 = (if isIdle s1 then emit Ev_active (s1\<lparr> isIdle := False \<rparr>) else s1)
        in resetTimer s2)"

definition handleVisibilityChange :: "page \<Rightarrow> page" where
  "handleVisibilityChange s =
     (let isHidden = documentHidden s;
          s1 = emit (Ev_visibility_change isHidden) s
      in if \<not> isHidden then
           let elapsed = clock s1 - lastActivity s1;
               timeout = idleTimeoutMinutes (config s1) * 60 * 1000
           in if elapsed \<ge> timeout \<and> \<not> isIdle s1 then triggerIdle s1
              else handleActivity s1
         else s1)"

text \<open>The bodies of the two timeout callbacks of \<^verbatim>\<open>resetTimer\<close>.\<close>

fun run_callback :: "callback \<Rightarrow> page \<Rightarrow> page" where
  "run_callback WarningCallback s =
     (if \<not> isIdle s \<and> isRunning s then emit (Ev_warning 60) s else s)"
| "run_callback IdleCallback s = triggerIdle s"

subsection \<open>The event loop of the page\<close>

text \<open>
  The pending timeout that fires next: the one with the least due time, the one set
  first among equals.
\<close>

fun earliest :: "timeout_entry list \<Rightarrow> timeout_entry option" where
  "earliest [] = None"
| "earliest (t # ts) =
     (case earliest ts of
        None \<Rightarrow> Some t
      | Some u \<Rightarrow> if due u < due t then Some u else Some t)"

definition next_due :: "int \<Rightarrow> page \<Rightarrow> timeout_entry option" where
  "next_due limit s = earliest (filter (\<lambda>t. due t \<le> limit) (pending s))"

text \<open>
  Firing a timeout: it leaves the queue, the clock shows its due time (or the present,
  when it is overdue), and its callback runs.
\<close>

definition fire :: "timeout_entry \<Rightarrow> page \<Rightarrow> page" where
  "fire t s =
     run_callback (callback t)
       (s\<lparr> pending := filter (\<lambda>u. handle u \<noteq> handle t) (pending s),
          clock := max (clock s) (due t) \<rparr>)"

lemma earliest_mem: "earliest ts = Some t \<Longrightarrow> t \<in> set ts"
  by (induction ts arbitrary: t) (auto split: option.splits if_splits)

lemma pending_run_callback [simp]: "pending (run_callback cb s) = pending s"
  by (cases cb) (simp_all add: triggerIdle_def emit_def)

lemma next_due_mem: "next_due limit s = Some t \<Longrightarrow> t \<in> set (pending s)"
  unfolding next_due_def by (drule earliest_mem) simp

lemma pending_fire_less:
  assumes "next_due limit s = Some t"
  shows "length (pending (fire t s)) < length (pending s)"
proof -
  from assms have "t \<in> set (pending s)"
    by (rule next_due_mem)
  then have "length (filter (\<lambda>u. handle u \<noteq> handle t) (pending s)) < length (pending s)"
    by (intro length_filter_less [of t]) simp_all
  then show ?thesis
    by (simp add: fire_def)
qed

text \<open>All timeouts due up to \<open>limit\<close> fire, in order.\<close>

function run_timers :: "int \<Rightarrow> page \<Rightarrow> page" where
  "run_timers limit s =
     (case next_due limit s of
        None \<Rightarrow> s
      | Some t \<Rightarrow> run_timers limit (fire t s))"
  by pat_completeness auto
termination
  by (relation "measure (\<lambda>(limit, s). length (pending s))") (auto simp: pending_fire_less)

declare run_timers.simps [simp del]

text \<open>
  What can happen to the page. \<open>Advance dt\<close>: \<open>dt\<close> milliseconds pass (none when
  \<open>dt\<close> is negative) and every timeout fires when it is due. \<open>Sleep dt\<close>: \<open>dt\<close> milliseconds pass with the tab
  suspended, no timeout fires (the overdue ones fire at the next \<open>Advance\<close>).
  \<open>Activity ev\<close>: the window receives an event of type \<open>ev\<close>. \<open>Visibility h\<close>:
  \<^verbatim>\<open>document.hidden\<close> becomes \<open>h\<close> and \<^verbatim>\<open>visibilitychange\<close> is dispatched. The
  others are calls of the public methods.
\<close>

definition advance :: "int \<Rightarrow> page \<Rightarrow> page" where
  "advance dt s = (run_timers (clock s + max 0 dt) s)\<lparr> clock := clock s + max 0 dt \<rparr>"

definition sleep :: "int \<Rightarrow> page \<Rightarrow> page" where
  "sleep dt s = s\<lparr> clock := clock s + max 0 dt \<rparr>"

definition dispatch_activity :: "string \<Rightarrow> page \<Rightarrow> page" where
  "dispatch_activity ev s = (if ev \<in> set (windowListeners s) then handleActivity s else s)"

definition dispatch_visibility :: "bool \<Rightarrow> page \<Rightarrow> page" where
  "dispatch_visibility h s =
     (let s1 = s\<lparr> documentHidden := h \<rparr>
      in if visibilityListener s1 then handleVisibilityChange s1 else s1)"

datatype action =
    Start | Stop | Reset
  | Advance int | Sleep int | Activity string | Visibility bool

fun step :: "action \<Rightarrow> page \<Rightarrow> page" where
  "step Start s = start s"
| "step Stop s = stop s"
| "step Reset s = reset s"
| "step (Advance dt) s = advance dt s"
| "step (Sleep dt) s = sleep dt s"
| "step (Activity ev) s = dispatch_activity ev s"
| "step (Visibility h) s = dispatch_visibility h s"

fun page_event :: "action \<Rightarrow> bool" where
  "page_event (Advance dt) = True"
| "page_event (Sleep dt) = True"
| "page_event (Activity ev) = True"
| "page_event (Visibility h) = True"
| "page_event _ = False"

text \<open>The states a guardian can be in: constructed, then any sequence of actions.\<close>

inductive reachable :: "page \<Rightarrow> bool" where
  constructed: "reachable (new_SessionGuardian c now)"
| after_step: "reachable s \<Longrightarrow> reachable (step a s)"

subsection \<open>An invariant of the reachable states\<close>

text \<open>
  Handles are fresh, the pending \<open>IdleCallback\<close> (if any) is the one \<open>timer\<close>
  holds, no pending \<open>WarningCallback\<close> has the handle in \<open>timer\<close>, and the
  activity listener is registered for configured event types only.
\<close>

definition guardian_inv :: "page \<Rightarrow> bool" where
  "guardian_inv s \<longleftrightarrow>
     (\<forall>t \<in> set (pending s). handle t < nextHandle s) \<and>
     (\<forall>t \<in> set (pending s). (callback t = IdleCallback) = (timer s = Some (handle t))) \<and>
     set (windowListeners s) \<subseteq> set (activityEvents (config s))"

lemma resetTimer_frame [simp]:
  "lastActivity (resetTimer s) = lastActivity s"
  "isIdle (resetTimer s) = isIdle s"
  "isRunning (resetTimer s) = isRunning s"
  "config (resetTimer s) = config s"
  "clock (resetTimer s) = clock s"
  "windowListeners (resetTimer s) = windowListeners s"
  "visibilityListener (resetTimer s) = visibilityListener s"
  "documentHidden (resetTimer s) = documentHidden s"
  "emitted (resetTimer s) = emitted s"
  by (simp_all add: resetTimer_def setTimeout_def clearTimeout_def timeoutMs_def Let_def split: option.splits)

definition cleared :: "page \<Rightarrow> timeout_entry list" where
  "cleared s = (case timer s of Some h \<Rightarrow> filter (\<lambda>t. handle t \<noteq> h) (pending s) | None \<Rightarrow> pending s)"

lemma resetTimer_pending:
  "pending (resetTimer s) =
     cleared s @
     (if timeoutMs s - 60000 > 0
      then [\<lparr> handle = nextHandle s, due = clock s + timer_delay (timeoutMs s - 60000),
              callback = WarningCallback \<rparr>,
            \<lparr> handle = nextHandle s + 1, due = clock s + timer_delay (timeoutMs s),
              callback = IdleCallback \<rparr>]
      else [\<lparr> handle = nextHandle s, due = clock s + timer_delay (timeoutMs s),
              callback = IdleCallback \<rparr>])"
  by (simp add: resetTimer_def setTimeout_def clearTimeout_def timeoutMs_def Let_def cleared_def split: option.splits)

lemma resetTimer_timer:
  "timer (resetTimer s) = Some (if timeoutMs s - 60000 > 0 then nextHandle s + 1 else nextHandle s)"
  by (simp add: resetTimer_def setTimeout_def clearTimeout_def timeoutMs_def Let_def split: option.splits)

lemma resetTimer_nextHandle:
  "nextHandle (resetTimer s) = (if timeoutMs s - 60000 > 0 then nextHandle s + 2 else nextHandle s + 1)"
  by (simp add: resetTimer_def setTimeout_def clearTimeout_def timeoutMs_def Let_def split: option.splits)

lemma cleared_subset: "set (cleared s) \<subseteq> set (pending s)"
  by (auto simp: cleared_def split: option.splits)

lemma cleared_no_idle:
  "guardian_inv s \<Longrightarrow> t \<in> set (cleared s) \<Longrightarrow> callback t = WarningCallback"
  by (cases "callback t") (auto simp: guardian_inv_def cleared_def split: option.splits)

lemma guardian_inv_resetTimer: 
  assumes "guardian_inv s" shows "guardian_inv (resetTimer s)"
proof -
  have lt: "\<forall>t \<in> set (cleared s). handle t < nextHandle s"
    using assms cleared_subset by (auto simp: guardian_inv_def)
  have w: "\<forall>t \<in> set (cleared s). callback t = WarningCallback"
    using assms cleared_no_idle by blast
  have l: "set (windowListeners s) \<subseteq> set (activityEvents (config s))"
    using assms by (simp add: guardian_inv_def)
  have 1: "\<forall>t \<in> set (pending (resetTimer s)). handle t < nextHandle (resetTimer s)"
    unfolding resetTimer_pending resetTimer_nextHandle using lt by (auto simp: less_Suc_eq)
  have 2: "\<forall>t \<in> set (pending (resetTimer s)).
             (callback t = IdleCallback) = (timer (resetTimer s) = Some (handle t))"
  proof
    fix t assume t: "t \<in> set (pending (resetTimer s))"
    show "(callback t = IdleCallback) = (timer (resetTimer s) = Some (handle t))"
    proof (cases "t \<in> set (cleared s)")
      case True
      with lt w have "handle t < nextHandle s" "callback t = WarningCallback" by auto
      then show ?thesis by (simp add: resetTimer_timer)
    next
      case False
      with t show ?thesis
        by (auto simp: resetTimer_pending resetTimer_timer split: if_splits)
    qed
  qed
  show ?thesis
    unfolding guardian_inv_def using 1 2 l by simp
qed

lemma guardian_inv_new: "guardian_inv (new_SessionGuardian c now)"
  by (simp add: guardian_inv_def new_SessionGuardian_def)

lemma fold_addEventListener_frame [simp]:
  "pending (fold addEventListener evs s) = pending s"
  "nextHandle (fold addEventListener evs s) = nextHandle s"
  "timer (fold addEventListener evs s) = timer s"
  "config (fold addEventListener evs s) = config s"
  "lastActivity (fold addEventListener evs s) = lastActivity s"
  "isIdle (fold addEventListener evs s) = isIdle s"
  "isRunning (fold addEventListener evs s) = isRunning s"
  "clock (fold addEventListener evs s) = clock s"
  "emitted (fold addEventListener evs s) = emitted s"
  "visibilityListener (fold addEventListener evs s) = visibilityListener s"
  "documentHidden (fold addEventListener evs s) = documentHidden s"
  by (induction evs arbitrary: s; simp add: addEventListener_def)+

lemma fold_addEventListener_listeners:
  "set (windowListeners (fold addEventListener evs s)) = set (windowListeners s) \<union> set evs"
  by (induction evs arbitrary: s) (auto simp: addEventListener_def)

lemma fold_removeEventListener_frame [simp]:
  "pending (fold removeEventListener evs s) = pending s"
  "nextHandle (fold removeEventListener evs s) = nextHandle s"
  "timer (fold removeEventListener evs s) = timer s"
  "config (fold removeEventListener evs s) = config s"
  "lastActivity (fold removeEventListener evs s) = lastActivity s"
  "isIdle (fold removeEventListener evs s) = isIdle s"
  "isRunning (fold removeEventListener evs s) = isRunning s"
  "clock (fold removeEventListener evs s) = clock s"
  "emitted (fold removeEventListener evs s) = emitted s"
  "visibilityListener (fold removeEventListener evs s) = visibilityListener s"
  "documentHidden (fold removeEventListener evs s) = documentHidden s"
  by (induction evs arbitrary: s; simp add: removeEventListener_def)+

lemma fold_removeEventListener_listeners:
  "windowListeners (fold removeEventListener evs s) = filter (\<lambda>e. e \<notin> set evs) (windowListeners s)"
  by (induction evs arbitrary: s) (auto simp: removeEventListener_def intro: filter_cong)

lemma guardian_inv_update [simp]:
  "guardian_inv (s\<lparr> lastActivity := a \<rparr>) = guardian_inv s"
  "guardian_inv (s\<lparr> isIdle := b \<rparr>) = guardian_inv s"
  "guardian_inv (s\<lparr> isRunning := b \<rparr>) = guardian_inv s"
  "guardian_inv (s\<lparr> clock := a \<rparr>) = guardian_inv s"
  "guardian_inv (s\<lparr> documentHidden := b \<rparr>) = guardian_inv s"
  "guardian_inv (s\<lparr> visibilityListener := b \<rparr>) = guardian_inv s"
  "guardian_inv (s\<lparr> emitted := es \<rparr>) = guardian_inv s"
  by (simp_all add: guardian_inv_def)

lemma guardian_inv_emit [simp]: "guardian_inv (emit e s) = guardian_inv s"
  by (simp add: emit_def)

lemma guardian_inv_add_listeners: "guardian_inv s \<Longrightarrow> guardian_inv (fold addEventListener (activityEvents (config s)) s)"
  by (simp add: guardian_inv_def fold_addEventListener_listeners)

lemma guardian_inv_start: "guardian_inv s \<Longrightarrow> guardian_inv (start s)"
proof -
  assume "guardian_inv s"
  then have "guardian_inv (s\<lparr> isRunning := True \<rparr>)" by simp
  then have "guardian_inv (fold addEventListener (activityEvents (config (s\<lparr> isRunning := True \<rparr>))) (s\<lparr> isRunning := True \<rparr>))"
    by (rule guardian_inv_add_listeners)
  with \<open>guardian_inv s\<close> show ?thesis
    by (simp add: start_def Let_def guardian_inv_resetTimer)
qed

lemma guardian_inv_stop: "guardian_inv s \<Longrightarrow> guardian_inv (stop s)"
  unfolding stop_def Let_def
  by (auto simp: guardian_inv_def clearTimeout_def fold_removeEventListener_listeners split: option.splits)

lemma guardian_inv_reset: "guardian_inv s \<Longrightarrow> guardian_inv (reset s)"
  unfolding reset_def Let_def by (simp add: guardian_inv_resetTimer)

lemma guardian_inv_handleActivity: "guardian_inv s \<Longrightarrow> guardian_inv (handleActivity s)"
  unfolding handleActivity_def Let_def by (simp add: guardian_inv_resetTimer)

lemma guardian_inv_triggerIdle: "guardian_inv s \<Longrightarrow> guardian_inv (triggerIdle s)"
  unfolding triggerIdle_def by simp

lemma guardian_inv_handleVisibilityChange: "guardian_inv s \<Longrightarrow> guardian_inv (handleVisibilityChange s)"
  unfolding handleVisibilityChange_def Let_def
  by (simp add: guardian_inv_triggerIdle guardian_inv_handleActivity)

lemma guardian_inv_fire: "guardian_inv s \<Longrightarrow> guardian_inv (fire t s)"
  unfolding fire_def by (cases "callback t") (auto simp: guardian_inv_def triggerIdle_def emit_def)

lemma guardian_inv_run_timers: "guardian_inv s \<Longrightarrow> guardian_inv (run_timers limit s)"
proof (induction limit s rule: run_timers.induct)
  case (1 limit s)
  show ?case
  proof (cases "next_due limit s")
    case None
    with 1 show ?thesis by (simp add: run_timers.simps)
  next
    case (Some t)
    with 1 show ?thesis by (simp add: run_timers.simps [of limit s] guardian_inv_fire)
  qed
qed

lemma guardian_inv_step: "guardian_inv s \<Longrightarrow> guardian_inv (step a s)"
proof (cases a)
  case Start
  assume "guardian_inv s" then show ?thesis unfolding Start by (simp add: guardian_inv_start)
next
  case Stop
  assume "guardian_inv s" then show ?thesis unfolding Stop by (simp add: guardian_inv_stop)
next
  case Reset
  assume "guardian_inv s" then show ?thesis unfolding Reset by (simp add: guardian_inv_reset)
next
  case (Advance dt)
  assume "guardian_inv s" then show ?thesis unfolding Advance by (simp add: advance_def guardian_inv_run_timers)
next
  case (Sleep dt)
  assume "guardian_inv s" then show ?thesis unfolding Sleep by (simp add: sleep_def)
next
  case (Activity ev)
  assume "guardian_inv s" then show ?thesis unfolding Activity
    by (simp add: dispatch_activity_def guardian_inv_handleActivity)
next
  case (Visibility h)
  assume "guardian_inv s" then show ?thesis unfolding Visibility
    by (simp add: dispatch_visibility_def Let_def guardian_inv_handleVisibilityChange)
qed

lemma reachable_inv: "reachable s \<Longrightarrow> guardian_inv s"
  by (induction rule: reachable.induct) (simp_all add: guardian_inv_new guardian_inv_step)

subsection \<open>Notions used in the statements\<close>

text \<open>The pending warning delays.\<close>

definition warnings :: "page \<Rightarrow> timeout_entry list" where
  "warnings s = filter (\<lambda>t. callback t = WarningCallback) (pending s)"

text \<open>
  The delays that arming the timer in state \<open>s\<close> schedules: the warning delay of
  \<open>timeoutMs - 60000\<close> when that is positive, then the timeout delay of
  \<open>timeoutMs\<close>, each as \<^verbatim>\<open>setTimeout\<close> takes it.
\<close>

definition arm_delays :: "page \<Rightarrow> timeout_entry list" where
  "arm_delays s =
     (if timeoutMs s - 60000 > 0
      then [\<lparr> handle = nextHandle s, due = clock s + timer_delay (timeoutMs s - 60000),
              callback = WarningCallback \<rparr>,
            \<lparr> handle = nextHandle s + 1, due = clock s + timer_delay (timeoutMs s),
              callback = IdleCallback \<rparr>]
      else [\<lparr> handle = nextHandle s, due = clock s + timer_delay (timeoutMs s),
              callback = IdleCallback \<rparr>])"

text \<open>
  From \<open>s\<close> to \<open>s'\<close> the timer has been re-armed: the timeout delay that was pending
  is cancelled, every warning delay that was pending still is, the new delays follow
  them, and \<open>timer\<close> holds the handle of the new timeout delay.
\<close>

definition rearmed :: "page \<Rightarrow> page \<Rightarrow> bool" where
  "rearmed s s' \<longleftrightarrow>
     pending s' = warnings s @ arm_delays s \<and>
     timer s' = Some (handle (last (arm_delays s))) \<and>
     nextHandle s' = nextHandle s + length (arm_delays s)"


text \<open>Sample runs: a guardian with a timeout of 2 minutes, constructed at time 0.\<close>

definition mins :: "int \<Rightarrow> PartialConfig" where
  "mins m = no_options\<lparr> opt_idleTimeoutMinutes := Some m \<rparr>"

definition run :: "action list \<Rightarrow> page" where
  "run acts = fold step acts (new_SessionGuardian (mins 2) 0)"


text \<open>A stopped guardian with no listener left and warning delays only.\<close>

definition quiet :: "page \<Rightarrow> bool" where
  "quiet s \<longleftrightarrow>
     \<not> isRunning s \<and> windowListeners s = [] \<and> \<not> visibilityListener s \<and>
     (\<forall>t \<in> set (pending s). callback t = WarningCallback)"

subsection \<open>Properties of the guardian\<close>

lemma timer_delay_in_range:
  "0 \<le> d \<Longrightarrow> d \<le> 2147483647 \<Longrightarrow> timer_delay d = d"
  by (simp add: timer_delay_def to_int32_def)

lemma timeoutMs_resetTimer [simp]: "timeoutMs (resetTimer s) = timeoutMs s"
  by (simp add: timeoutMs_def)

lemma cleared_warnings: "guardian_inv s \<Longrightarrow> cleared s = warnings s"
proof -
  assume i: "guardian_inv s"
  have "filter (\<lambda>t. callback t = WarningCallback) (cleared s) = cleared s"
    using cleared_no_idle [OF i] by (simp add: filter_id_conv)
  moreover have "filter (\<lambda>t. callback t = WarningCallback) (cleared s) = warnings s"
  proof (cases "timer s")
    case None
    then show ?thesis by (simp add: cleared_def warnings_def)
  next
    case (Some h)
    from i Some have "\<forall>t \<in> set (pending s). callback t = WarningCallback \<longrightarrow> handle t \<noteq> h"
      by (auto simp: guardian_inv_def)
    then have "filter (\<lambda>t. callback t = WarningCallback) (filter (\<lambda>t. handle t \<noteq> h) (pending s))
               = filter (\<lambda>t. callback t = WarningCallback) (pending s)"
      by (auto intro: filter_cong)
    with Some show ?thesis by (simp add: cleared_def warnings_def)
  qed
  ultimately show ?thesis by simp
qed

lemma rearmed_resetTimer: "guardian_inv s \<Longrightarrow> rearmed s (resetTimer s)"
  by (simp add: rearmed_def resetTimer_pending resetTimer_timer resetTimer_nextHandle
        cleared_warnings arm_delays_def)

text \<open>
  The states in which \<open>start\<close>, \<open>reset\<close> and \<open>handleActivity\<close> call
  \<open>resetTimer\<close> differ from the state of the call in fields that arming does not read.
\<close>

lemma rearmed_cong:
  assumes "rearmed s1 s'" "pending s1 = pending s" "nextHandle s1 = nextHandle s"
    "clock s1 = clock s" "config s1 = config s"
  shows "rearmed s s'"
  using assms by (simp add: rearmed_def warnings_def arm_delays_def timeoutMs_def)

lemma emit_fields [simp]:
  "clock (emit e s) = clock s" "lastActivity (emit e s) = lastActivity s"
  "config (emit e s) = config s" "isIdle (emit e s) = isIdle s"
  "emitted (emit e s) = emitted s @ [e]" "pending (emit e s) = pending s"
  "timer (emit e s) = timer s" "isRunning (emit e s) = isRunning s"
  "documentHidden (emit e s) = documentHidden s" "nextHandle (emit e s) = nextHandle s"
  "visibilityListener (emit e s) = visibilityListener s"
  "windowListeners (emit e s) = windowListeners s"
  by (simp_all add: emit_def)

lemma handleActivity_throttled:
  "clock s - lastActivity s < activityThrottleMs (config s) \<Longrightarrow> handleActivity s = s"
  by (simp add: handleActivity_def)

lemma handleActivity_passed:
  assumes "guardian_inv s" "activityThrottleMs (config s) \<le> clock s - lastActivity s"
  shows "lastActivity (handleActivity s) = clock s
       \<and> isIdle (handleActivity s) = False
       \<and> emitted (handleActivity s) = emitted s @ (if isIdle s then [Ev_active] else [])
       \<and> rearmed s (handleActivity s)"
proof -
  let ?s2 = "if isIdle s then emit Ev_active (s\<lparr> lastActivity := clock s, isIdle := False \<rparr>)
             else s\<lparr> lastActivity := clock s \<rparr>"
  from assms(2) have eq: "handleActivity s = resetTimer ?s2"
    by (simp add: handleActivity_def Let_def)
  from assms(1) have "guardian_inv ?s2" by simp
  then have "rearmed ?s2 (resetTimer ?s2)" by (rule rearmed_resetTimer)
  then have "rearmed s (resetTimer ?s2)"
    by (rule rearmed_cong) simp_all
  with eq show ?thesis by simp
qed

lemma reset_rearmed:
  assumes "guardian_inv s"
  shows "rearmed s (reset s)"
proof -
  let ?s2 = "if isIdle s then emit Ev_active (s\<lparr> lastActivity := clock s, isIdle := False \<rparr>)
             else s\<lparr> lastActivity := clock s \<rparr>"
  have eq: "reset s = resetTimer ?s2"
    by (simp add: reset_def Let_def)
  from assms have "guardian_inv ?s2" by simp
  then have "rearmed ?s2 (resetTimer ?s2)" by (rule rearmed_resetTimer)
  then have "rearmed s (resetTimer ?s2)"
    by (rule rearmed_cong) simp_all
  with eq show ?thesis by simp
qed

lemma start_rearmed:
  assumes "guardian_inv s" "\<not> isRunning s"
  shows "rearmed s (start s)"
proof -
  let ?s3 = "(fold addEventListener (activityEvents (config s)) (s\<lparr> isRunning := True \<rparr>))
               \<lparr> visibilityListener := True \<rparr>"
  from assms(2) have eq: "start s = resetTimer ?s3"
    by (simp add: start_def Let_def)
  from assms(1) have "guardian_inv (s\<lparr> isRunning := True \<rparr>)" by simp
  then have "guardian_inv (fold addEventListener (activityEvents (config (s\<lparr> isRunning := True \<rparr>)))
                (s\<lparr> isRunning := True \<rparr>))"
    by (rule guardian_inv_add_listeners)
  then have "guardian_inv ?s3" by simp
  then have "rearmed ?s3 (resetTimer ?s3)" by (rule rearmed_resetTimer)
  then have "rearmed s (resetTimer ?s3)"
    by (rule rearmed_cong) simp_all
  with eq show ?thesis by simp
qed


lemma reachable_fold: "reachable s \<Longrightarrow> reachable (fold step acts s)"
  by (induction acts arbitrary: s) (simp_all add: reachable.after_step)

lemma reachable_run: "reachable (fold step acts (new_SessionGuardian c now))"
  by (rule reachable_fold) (rule reachable.constructed)

lemma reachable_run2: "reachable (run acts)"
  unfolding run_def by (rule reachable_run)

text \<open>
  C7. In every reachable state: an activity signal that arrives less than
  \<open>activityThrottleMs\<close> after \<open>lastActivity\<close> leaves the whole state as it is (no field
  changes, no timeout is set or cleared, nothing is emitted); a signal that passes the
  throttle sets \<open>lastActivity\<close> to the present time, leaves the guardian not idle,
  emits \<open>active\<close> exactly when it was idle, and re-arms the timer: the pending timeout
  delay is cancelled and the warning delay and the timeout delay are scheduled anew. A
  window event of a registered type is such a signal, and the default throttle is
  1000 ms.
\<close>

theorem handleActivity_throttle:
  assumes "reachable s"
  shows "(clock s - lastActivity s < activityThrottleMs (config s) \<longrightarrow> handleActivity s = s)
       \<and> (activityThrottleMs (config s) \<le> clock s - lastActivity s \<longrightarrow>
            lastActivity (handleActivity s) = clock s
          \<and> isIdle (handleActivity s) = False
          \<and> emitted (handleActivity s) = emitted s @ (if isIdle s then [Ev_active] else [])
          \<and> rearmed s (handleActivity s))
       \<and> (\<forall>ev \<in> set (windowListeners s). dispatch_activity ev s = handleActivity s)
       \<and> activityThrottleMs (make_config no_options) = 1000"
proof -
  from assms have i: "guardian_inv s" by (rule reachable_inv)
  have throttled: "clock s - lastActivity s < activityThrottleMs (config s) \<longrightarrow> handleActivity s = s"
    by (simp add: handleActivity_throttled)
  have passed: "activityThrottleMs (config s) \<le> clock s - lastActivity s \<longrightarrow>
            lastActivity (handleActivity s) = clock s
          \<and> isIdle (handleActivity s) = False
          \<and> emitted (handleActivity s) = emitted s @ (if isIdle s then [Ev_active] else [])
          \<and> rearmed s (handleActivity s)"
    using handleActivity_passed [OF i] by (intro impI)
  have disp: "\<forall>ev \<in> set (windowListeners s). dispatch_activity ev s = handleActivity s"
    by (simp add: dispatch_activity_def)
  have dflt: "activityThrottleMs (make_config no_options) = 1000"
    by (simp add: make_config_def no_options_def DEFAULT_THROTTLE_MS_def)
  show ?thesis
    by (intro conjI) (fact throttled passed disp dflt)+
qed

theorem handleActivity_throttle_witness:
  "handleActivity (run [Start, Advance 10]) = run [Start, Advance 10]
   \<and> lastActivity (handleActivity (run [Start, Advance 1000])) = 1000
   \<and> rearmed (run [Start, Advance 1000]) (handleActivity (run [Start, Advance 1000]))
   \<and> pending (run [Start, Advance 1000]) =
        [\<lparr> handle = 1, due = 60000, callback = WarningCallback \<rparr>,
         \<lparr> handle = 2, due = 120000, callback = IdleCallback \<rparr>]
   \<and> pending (handleActivity (run [Start, Advance 1000])) =
        [\<lparr> handle = 1, due = 60000, callback = WarningCallback \<rparr>,
         \<lparr> handle = 3, due = 61000, callback = WarningCallback \<rparr>,
         \<lparr> handle = 4, due = 121000, callback = IdleCallback \<rparr>]
   \<and> dispatch_activity ''keydown'' (run [Start, Advance 1000]) = handleActivity (run [Start, Advance 1000])"
proof -
  let ?a = "run [Start, Advance 10]" and ?b = "run [Start, Advance 1000]"
  have a: "clock ?a - lastActivity ?a < activityThrottleMs (config ?a)"
    by code_simp
  have b: "activityThrottleMs (config ?b) \<le> clock ?b - lastActivity ?b"
    by code_simp
  have c: "clock ?b = 1000"
    by code_simp
  have d: "''keydown'' \<in> set (windowListeners ?b)"
    by code_simp
  have e: "pending ?b =
        [\<lparr> handle = 1, due = 60000, callback = WarningCallback \<rparr>,
         \<lparr> handle = 2, due = 120000, callback = IdleCallback \<rparr>]"
    by code_simp
  have f: "warnings ?b @ arm_delays ?b =
        [\<lparr> handle = 1, due = 60000, callback = WarningCallback \<rparr>,
         \<lparr> handle = 3, due = 61000, callback = WarningCallback \<rparr>,
         \<lparr> handle = 4, due = 121000, callback = IdleCallback \<rparr>]"
    by code_simp
  from handleActivity_throttle [OF reachable_run2, of "[Start, Advance 10]"] a
  have w1: "handleActivity ?a = ?a"
    by blast
  from handleActivity_throttle [OF reachable_run2, of "[Start, Advance 1000]"] b
  have 2: "lastActivity (handleActivity ?b) = clock ?b \<and> rearmed ?b (handleActivity ?b)"
    by blast
  from handleActivity_throttle [OF reachable_run2, of "[Start, Advance 1000]"] d
  have w3: "dispatch_activity ''keydown'' ?b = handleActivity ?b"
    by blast
  from 2 have w2a: "lastActivity (handleActivity ?b) = 1000"
    by (simp only: c)
  from 2 have w2b: "rearmed ?b (handleActivity ?b)" ..
  then have "pending (handleActivity ?b) = warnings ?b @ arm_delays ?b"
    by (simp only: rearmed_def)
  then have w2c: "pending (handleActivity ?b) =
        [\<lparr> handle = 1, due = 60000, callback = WarningCallback \<rparr>,
         \<lparr> handle = 3, due = 61000, callback = WarningCallback \<rparr>,
         \<lparr> handle = 4, due = 121000, callback = IdleCallback \<rparr>]"
    by (simp only: f)
  show ?thesis
    by (intro conjI) (fact w1 w2a w2b w2c w3 e)+
qed

lemma lastActivity_triggerIdle [simp]: "lastActivity (triggerIdle s) = lastActivity s"
  by (simp add: triggerIdle_def emit_def)

lemma lastActivity_run_callback [simp]: "lastActivity (run_callback cb s) = lastActivity s"
  by (cases cb) (simp_all add: emit_def)

lemma lastActivity_fire [simp]: "lastActivity (fire t s) = lastActivity s"
  by (simp add: fire_def)

lemma lastActivity_run_timers [simp]: "lastActivity (run_timers limit s) = lastActivity s"
proof (induction limit s rule: run_timers.induct)
  case (1 limit s)
  then show ?case
    by (cases "next_due limit s") (simp_all add: run_timers.simps [of limit s])
qed

lemma lastActivity_start [simp]: "lastActivity (start s) = lastActivity s"
  by (simp add: start_def Let_def)

lemma lastActivity_stop [simp]: "lastActivity (stop s) = lastActivity s"
  by (simp add: stop_def Let_def clearTimeout_def split: option.splits)





lemma stop_fields:
  "isIdle (stop s) = isIdle s" "emitted (stop s) = emitted s" "isRunning (stop s) = False"
  by (simp_all add: stop_def Let_def clearTimeout_def split: option.splits)

lemma stop_timer: "isRunning s \<Longrightarrow> timer (stop s) = None"
  by (simp add: stop_def Let_def clearTimeout_def split: option.splits)

lemma stop_pending:
  "isRunning s \<Longrightarrow> pending (stop s) = cleared s"
  by (simp add: stop_def Let_def clearTimeout_def cleared_def split: option.splits)

lemma stop_listeners:
  "isRunning s \<Longrightarrow>
   windowListeners (stop s) = filter (\<lambda>e. e \<notin> set (activityEvents (config s))) (windowListeners s)
   \<and> visibilityListener (stop s) = False"
  by (simp add: stop_def Let_def clearTimeout_def fold_removeEventListener_listeners split: option.splits)

lemma stop_idem: "stop (stop s) = stop s"
  by (simp add: stop_def [of "stop s"] stop_fields)

lemma quiet_stop:
  assumes "guardian_inv s" "isRunning s"
  shows "quiet (stop s)"
proof -
  from assms(1) have "set (windowListeners s) \<subseteq> set (activityEvents (config s))"
    by (simp add: guardian_inv_def)
  then have "filter (\<lambda>e. e \<notin> set (activityEvents (config s))) (windowListeners s) = []"
    by (auto simp: filter_empty_conv)
  with assms stop_listeners [OF assms(2)] show ?thesis
    by (auto simp: quiet_def stop_fields stop_pending dest: cleared_no_idle)
qed

lemma quiet_fire:
  assumes "quiet s" "t \<in> set (pending s)"
  shows "quiet (fire t s) \<and> isIdle (fire t s) = isIdle s \<and> emitted (fire t s) = emitted s"
proof -
  from assms have "callback t = WarningCallback" "\<not> isRunning s"
    by (auto simp: quiet_def)
  with assms(1) show ?thesis
    by (auto simp: fire_def quiet_def)
qed

lemma quiet_run_timers:
  "quiet s \<Longrightarrow>
   quiet (run_timers limit s) \<and> isIdle (run_timers limit s) = isIdle s
   \<and> emitted (run_timers limit s) = emitted s"
proof (induction limit s rule: run_timers.induct)
  case (1 limit s)
  show ?case
  proof (cases "next_due limit s")
    case None
    with 1 show ?thesis by (simp add: run_timers.simps [of limit s])
  next
    case (Some t)
    then have "t \<in> set (pending s)" by (rule next_due_mem)
    with "1.prems" have f: "quiet (fire t s) \<and> isIdle (fire t s) = isIdle s \<and> emitted (fire t s) = emitted s"
      by (rule quiet_fire)
    with "1.IH" [OF Some] Some show ?thesis
      by (simp add: run_timers.simps [of limit s])
  qed
qed

lemma quiet_step:
  assumes "quiet s" "page_event a"
  shows "quiet (step a s) \<and> isIdle (step a s) = isIdle s \<and> emitted (step a s) = emitted s"
proof (cases a)
  case (Advance dt)
  from quiet_run_timers [OF assms(1), of "clock s + max 0 dt"] show ?thesis
    unfolding Advance by (simp add: advance_def quiet_def)
next
  case (Sleep dt)
  with assms show ?thesis by (simp add: sleep_def quiet_def)
next
  case (Activity ev)
  with assms show ?thesis by (simp add: dispatch_activity_def quiet_def)
next
  case (Visibility h)
  with assms show ?thesis by (simp add: dispatch_visibility_def quiet_def)
qed (use assms in simp_all)

lemma quiet_fold:
  "quiet s \<Longrightarrow> list_all page_event acts \<Longrightarrow>
   isIdle (fold step acts s) = isIdle s \<and> emitted (fold step acts s) = emitted s"
proof (induction acts arbitrary: s)
  case Nil
  then show ?case by simp
next
  case (Cons a acts)
  from Cons.prems have "quiet (step a s) \<and> isIdle (step a s) = isIdle s \<and> emitted (step a s) = emitted s"
    by (simp add: quiet_step)
  with Cons.IH [of "step a s"] Cons.prems show ?case by simp
qed

text \<open>
  C8. After \<open>stop\<close> on a running guardian, however far time advances (and whatever
  else happens in the page: window events, visibility changes, suspension), nothing is
  emitted, so \<open>idle\<close> never fires, and \<open>isIdle\<close> never changes. \<open>stop\<close> is
  idempotent, leaves no timeout callback pending and \<open>timer\<close> empty, and does not
  alter \<open>isIdle\<close> or \<open>lastActivity\<close>.
\<close>

theorem stop_suppresses_idle:
  assumes "reachable s" "isRunning s"
  shows "stop (stop s) = stop s
       \<and> isIdle (stop s) = isIdle s \<and> lastActivity (stop s) = lastActivity s
       \<and> timer (stop s) = None
       \<and> (\<forall>t \<in> set (pending (stop s)). callback t \<noteq> IdleCallback)
       \<and> (\<forall>acts. list_all page_event acts \<longrightarrow>
             isIdle (fold step acts (stop s)) = isIdle s
           \<and> emitted (fold step acts (stop s)) = emitted s)"
proof -
  from assms have q: "quiet (stop s)"
    by (simp add: reachable_inv quiet_stop)
  then have "\<forall>t \<in> set (pending (stop s)). callback t \<noteq> IdleCallback"
    by (simp add: quiet_def)
  moreover have "\<forall>acts. list_all page_event acts \<longrightarrow>
             isIdle (fold step acts (stop s)) = isIdle s
           \<and> emitted (fold step acts (stop s)) = emitted s"
    using quiet_fold [OF q] by (simp add: stop_fields)
  ultimately show ?thesis
    using assms(2) by (simp add: stop_idem stop_fields stop_timer)
qed

theorem stop_suppresses_idle_witness:
  "isRunning (run [Start, Advance 30000])
   \<and> pending (stop (run [Start, Advance 30000])) = [\<lparr> handle = 1, due = 60000, callback = WarningCallback \<rparr>]
   \<and> isIdle (fold step [Advance 100000000] (stop (run [Start, Advance 30000]))) = False
   \<and> emitted (fold step [Advance 100000000] (stop (run [Start, Advance 30000]))) = []
   \<and> pending (fold step [Advance 100000000] (stop (run [Start, Advance 30000]))) = []"
proof -
  have a: "isRunning (run [Start, Advance 30000])" by code_simp
  have b: "list_all page_event [Advance 100000000]" by simp
  have c: "isIdle (run [Start, Advance 30000]) = False" "emitted (run [Start, Advance 30000]) = []"
    by code_simp+
  have d: "pending (stop (run [Start, Advance 30000])) = [\<lparr> handle = 1, due = 60000, callback = WarningCallback \<rparr>]"
    by code_simp
  have e: "pending (fold step [Advance 100000000] (stop (run [Start, Advance 30000]))) = []"
    by code_simp
  from stop_suppresses_idle [OF reachable_run2 a]
  have "\<forall>acts. list_all page_event acts \<longrightarrow>
             isIdle (fold step acts (stop (run [Start, Advance 30000]))) = isIdle (run [Start, Advance 30000])
           \<and> emitted (fold step acts (stop (run [Start, Advance 30000]))) = emitted (run [Start, Advance 30000])"
    by (elim conjE)
  with b have "isIdle (fold step [Advance 100000000] (stop (run [Start, Advance 30000]))) = isIdle (run [Start, Advance 30000])
           \<and> emitted (fold step [Advance 100000000] (stop (run [Start, Advance 30000]))) = emitted (run [Start, Advance 30000])"
    by blast
  then have f: "isIdle (fold step [Advance 100000000] (stop (run [Start, Advance 30000]))) = False"
    and g: "emitted (fold step [Advance 100000000] (stop (run [Start, Advance 30000]))) = []"
    by (simp_all only: c)
  show ?thesis
    by (intro conjI) (fact a d e f g)+
qed


text \<open>
  C2, as amended. When the visibility of the document changes while the guardian
  listens, it emits \<open>visibility-change\<close>. When the document has become visible: if
  the time since the last activity has reached the timeout and the guardian is not idle,
  it becomes idle at once and emits \<open>idle\<close>, with \<open>lastActivity\<close> and the timeouts
  untouched; otherwise the return is handled as an ordinary activity signal, throttle
  included: less than \<open>activityThrottleMs\<close> after the last activity nothing more
  happens, from \<open>activityThrottleMs\<close> on \<open>lastActivity\<close> becomes the present time,
  the guardian is not idle (emitting \<open>active\<close> if it was) and the timer is re-armed.
\<close>

theorem visibility_change_cases:
  assumes "reachable s" and "visibilityListener s"
  shows "dispatch_visibility True s = emit (Ev_visibility_change True) (s\<lparr> documentHidden := True \<rparr>)
       \<and> (timeoutMs s \<le> clock s - lastActivity s \<and> \<not> isIdle s \<longrightarrow>
             isIdle (dispatch_visibility False s)
           \<and> emitted (dispatch_visibility False s) =
               emitted s @ [Ev_visibility_change False,
                            Ev_idle (lastActivity s) (idleTimeoutMinutes (config s))]
           \<and> lastActivity (dispatch_visibility False s) = lastActivity s
           \<and> pending (dispatch_visibility False s) = pending s
           \<and> timer (dispatch_visibility False s) = timer s)
       \<and> (clock s - lastActivity s < timeoutMs s \<or> isIdle s \<longrightarrow>
             (clock s - lastActivity s < activityThrottleMs (config s) \<longrightarrow>
                dispatch_visibility False s =
                  emit (Ev_visibility_change False) (s\<lparr> documentHidden := False \<rparr>))
           \<and> (activityThrottleMs (config s) \<le> clock s - lastActivity s \<longrightarrow>
                lastActivity (dispatch_visibility False s) = clock s
              \<and> isIdle (dispatch_visibility False s) = False
              \<and> emitted (dispatch_visibility False s) =
                  emitted s @ [Ev_visibility_change False] @ (if isIdle s then [Ev_active] else [])
              \<and> rearmed s (dispatch_visibility False s)))"
proof -
  let ?s1 = "emit (Ev_visibility_change False) (s\<lparr> documentHidden := False \<rparr>)"
  from assms(1) have i: "guardian_inv ?s1" by (simp add: reachable_inv)
  have hidden: "dispatch_visibility True s = emit (Ev_visibility_change True) (s\<lparr> documentHidden := True \<rparr>)"
    using assms(2) by (simp add: dispatch_visibility_def handleVisibilityChange_def Let_def)
  have late: "timeoutMs s \<le> clock s - lastActivity s \<and> \<not> isIdle s \<longrightarrow>
             isIdle (dispatch_visibility False s)
           \<and> emitted (dispatch_visibility False s) =
               emitted s @ [Ev_visibility_change False,
                            Ev_idle (lastActivity s) (idleTimeoutMinutes (config s))]
           \<and> lastActivity (dispatch_visibility False s) = lastActivity s
           \<and> pending (dispatch_visibility False s) = pending s
           \<and> timer (dispatch_visibility False s) = timer s"
    using assms(2)
    by (simp add: dispatch_visibility_def handleVisibilityChange_def Let_def timeoutMs_def
          triggerIdle_def)
  have act: "dispatch_visibility False s = handleActivity ?s1"
    if "clock s - lastActivity s < timeoutMs s \<or> isIdle s"
    using that assms(2)
    by (auto simp: dispatch_visibility_def handleVisibilityChange_def Let_def timeoutMs_def)
  have thr: "handleActivity ?s1 = ?s1" if "clock s - lastActivity s < activityThrottleMs (config s)"
    using that by (simp add: handleActivity_throttled)
  have pas: "lastActivity (handleActivity ?s1) = clock s
              \<and> isIdle (handleActivity ?s1) = False
              \<and> emitted (handleActivity ?s1) =
                  emitted s @ [Ev_visibility_change False] @ (if isIdle s then [Ev_active] else [])
              \<and> rearmed s (handleActivity ?s1)"
    if t: "activityThrottleMs (config s) \<le> clock s - lastActivity s"
  proof -
    from t have t1: "activityThrottleMs (config ?s1) \<le> clock ?s1 - lastActivity ?s1" by simp
    note h = handleActivity_passed [OF i t1]
    from h have "rearmed ?s1 (handleActivity ?s1)" by simp
    then have "rearmed s (handleActivity ?s1)"
      by (rule rearmed_cong) simp_all
    with h show ?thesis by simp
  qed
  have third: "clock s - lastActivity s < timeoutMs s \<or> isIdle s \<longrightarrow>
             (clock s - lastActivity s < activityThrottleMs (config s) \<longrightarrow>
                dispatch_visibility False s = ?s1)
           \<and> (activityThrottleMs (config s) \<le> clock s - lastActivity s \<longrightarrow>
                lastActivity (dispatch_visibility False s) = clock s
              \<and> isIdle (dispatch_visibility False s) = False
              \<and> emitted (dispatch_visibility False s) =
                  emitted s @ [Ev_visibility_change False] @ (if isIdle s then [Ev_active] else [])
              \<and> rearmed s (dispatch_visibility False s))"
  proof (intro impI)
    assume h: "clock s - lastActivity s < timeoutMs s \<or> isIdle s"
    show "(clock s - lastActivity s < activityThrottleMs (config s) \<longrightarrow>
                dispatch_visibility False s = ?s1)
           \<and> (activityThrottleMs (config s) \<le> clock s - lastActivity s \<longrightarrow>
                lastActivity (dispatch_visibility False s) = clock s
              \<and> isIdle (dispatch_visibility False s) = False
              \<and> emitted (dispatch_visibility False s) =
                  emitted s @ [Ev_visibility_change False] @ (if isIdle s then [Ev_active] else [])
              \<and> rearmed s (dispatch_visibility False s))"
      unfolding act [OF h] using thr pas by blast
  qed
  show ?thesis
    by (intro conjI) (fact hidden late third)+
qed

text \<open>
  C2 as stated fails: the guardian (timeout 2 minutes, throttle 1000 ms) is started,
  100 ms later the document is hidden, 400 ms later it is visible again; the time
  since the last activity, 500 ms, does not exceed the timeout, yet \<open>lastActivity\<close>
  stays 0 and no timeout is cleared or set.
\<close>

theorem visibility_return_is_throttled:
  "documentHidden (run [Start, Advance 100, Visibility True, Advance 400]) = True
   \<and> clock (run [Start, Advance 100, Visibility True, Advance 400])
       - lastActivity (run [Start, Advance 100, Visibility True, Advance 400]) = 500
   \<and> timeoutMs (run [Start, Advance 100, Visibility True, Advance 400]) = 120000
   \<and> lastActivity (run [Start, Advance 100, Visibility True, Advance 400, Visibility False]) = 0
   \<and> clock (run [Start, Advance 100, Visibility True, Advance 400, Visibility False]) = 500
   \<and> documentHidden (run [Start, Advance 100, Visibility True, Advance 400, Visibility False]) = False
   \<and> pending (run [Start, Advance 100, Visibility True, Advance 400, Visibility False])
       = pending (run [Start, Advance 100, Visibility True, Advance 400])
   \<and> timer (run [Start, Advance 100, Visibility True, Advance 400, Visibility False])
       = timer (run [Start, Advance 100, Visibility True, Advance 400])"
  by code_simp

theorem visibility_change_cases_witness:
  "emitted (dispatch_visibility False (run [Start, Visibility True, Sleep 130000])) =
      [Ev_visibility_change True, Ev_visibility_change False, Ev_idle 0 2]
   \<and> isIdle (dispatch_visibility False (run [Start, Visibility True, Sleep 130000]))
   \<and> dispatch_visibility False (run [Start, Advance 100, Visibility True, Advance 400]) =
       emit (Ev_visibility_change False)
         ((run [Start, Advance 100, Visibility True, Advance 400])\<lparr> documentHidden := False \<rparr>)
   \<and> lastActivity (dispatch_visibility False (run [Start, Advance 5000, Visibility True, Advance 5000])) = 10000
   \<and> rearmed (run [Start, Advance 5000, Visibility True, Advance 5000])
        (dispatch_visibility False (run [Start, Advance 5000, Visibility True, Advance 5000]))
   \<and> pending (dispatch_visibility False (run [Start, Advance 5000, Visibility True, Advance 5000])) =
        [\<lparr> handle = 1, due = 60000, callback = WarningCallback \<rparr>,
         \<lparr> handle = 3, due = 70000, callback = WarningCallback \<rparr>,
         \<lparr> handle = 4, due = 130000, callback = IdleCallback \<rparr>]"
proof -
  let ?a = "run [Start, Visibility True, Sleep 130000]"
    and ?b = "run [Start, Advance 100, Visibility True, Advance 400]"
    and ?c = "run [Start, Advance 5000, Visibility True, Advance 5000]"
  have la: "visibilityListener ?a" and lb: "visibilityListener ?b" and lc: "visibilityListener ?c"
    by code_simp+
  have a: "timeoutMs ?a \<le> clock ?a - lastActivity ?a \<and> \<not> isIdle ?a"
    by code_simp
  have a': "emitted ?a = [Ev_visibility_change True]" "lastActivity ?a = 0"
    "idleTimeoutMinutes (config ?a) = 2"
    by code_simp+
  have b: "clock ?b - lastActivity ?b < timeoutMs ?b \<or> isIdle ?b"
          "clock ?b - lastActivity ?b < activityThrottleMs (config ?b)"
    by code_simp+
  have c: "clock ?c - lastActivity ?c < timeoutMs ?c \<or> isIdle ?c"
          "activityThrottleMs (config ?c) \<le> clock ?c - lastActivity ?c"
    by code_simp+
  have c': "clock ?c = 10000" by code_simp
  have c'': "warnings ?c @ arm_delays ?c =
        [\<lparr> handle = 1, due = 60000, callback = WarningCallback \<rparr>,
         \<lparr> handle = 3, due = 70000, callback = WarningCallback \<rparr>,
         \<lparr> handle = 4, due = 130000, callback = IdleCallback \<rparr>]"
    by code_simp
  from visibility_change_cases [OF reachable_run2 la] a
  have "isIdle (dispatch_visibility False ?a)
      \<and> emitted (dispatch_visibility False ?a) =
          emitted ?a @ [Ev_visibility_change False, Ev_idle (lastActivity ?a) (idleTimeoutMinutes (config ?a))]"
    by blast
  then have wa: "emitted (dispatch_visibility False ?a) =
        [Ev_visibility_change True, Ev_visibility_change False, Ev_idle 0 2]"
    and wa': "isIdle (dispatch_visibility False ?a)"
    by (simp_all only: a' append_Cons append_Nil)
  from visibility_change_cases [OF reachable_run2 lb] b
  have wb: "dispatch_visibility False ?b = emit (Ev_visibility_change False) (?b\<lparr> documentHidden := False \<rparr>)"
    by blast
  from visibility_change_cases [OF reachable_run2 lc] c
  have "lastActivity (dispatch_visibility False ?c) = clock ?c \<and> rearmed ?c (dispatch_visibility False ?c)"
    by blast
  then have wc: "lastActivity (dispatch_visibility False ?c) = 10000"
    and wc': "rearmed ?c (dispatch_visibility False ?c)"
    by (simp_all only: c')
  from wc' have "pending (dispatch_visibility False ?c) = warnings ?c @ arm_delays ?c"
    by (simp only: rearmed_def)
  then have wc'': "pending (dispatch_visibility False ?c) =
        [\<lparr> handle = 1, due = 60000, callback = WarningCallback \<rparr>,
         \<lparr> handle = 3, due = 70000, callback = WarningCallback \<rparr>,
         \<lparr> handle = 4, due = 130000, callback = IdleCallback \<rparr>]"
    by (simp only: c'')
  show ?thesis
    by (intro conjI) (fact wa wa' wb wc wc' wc'')+
qed

lemma emitted_fire_warning:
  "callback w = WarningCallback \<Longrightarrow>
   emitted (fire w s) = emitted s @ (if \<not> isIdle s \<and> isRunning s then [Ev_warning 60] else [])"
  by (simp add: fire_def)

lemma isRunning_handleActivity [simp]: "isRunning (handleActivity s) = isRunning s"
  by (simp add: handleActivity_def Let_def)

lemma rearmed_warnings: "rearmed s s' \<Longrightarrow> x \<in> set (warnings s) \<Longrightarrow> x \<in> set (warnings s')"
proof -
  assume r: "rearmed s s'" and x: "x \<in> set (warnings s)"
  from x have c: "callback x = WarningCallback" by (simp add: warnings_def)
  from r have "pending s' = warnings s @ arm_delays s" by (simp add: rearmed_def)
  with x c show "x \<in> set (warnings s')" by (simp add: warnings_def [of s'])
qed

lemma arm_delays_in_range:
  "0 < timeoutMs s - 60000 \<and> timeoutMs s \<le> 2147483647 \<longrightarrow>
     arm_delays s =
       [\<lparr> handle = nextHandle s, due = clock s + (timeoutMs s - 60000), callback = WarningCallback \<rparr>,
        \<lparr> handle = nextHandle s + 1, due = clock s + timeoutMs s, callback = IdleCallback \<rparr>]"
  by (simp add: arm_delays_def timer_delay_in_range)

lemma arm_delays_no_warning:
  "timeoutMs s - 60000 \<le> 0 \<longrightarrow>
     arm_delays s =
       [\<lparr> handle = nextHandle s, due = clock s + timer_delay (timeoutMs s), callback = IdleCallback \<rparr>]"
  by (simp add: arm_delays_def)

text \<open>
  C6, as amended. In every reachable state, each of the calls that arm the timer
  (\<open>start\<close> on a stopped guardian, \<open>reset\<close>, an activity signal that passes the
  throttle, a return to the foreground handled as one) cancels the pending timeout
  delay, keeps every pending warning delay, and schedules the delays of the arm: a
  warning delay of \<open>timeoutMs - 60000\<close> exactly when that is positive, then the
  timeout delay (both of these lengths when the timeout fits the 32 bits of
  \<^verbatim>\<open>setTimeout\<close>). A warning delay that fires, in whatever state, emits \<open>warning\<close>
  with \<open>secondsRemaining = 60\<close> if the guardian is then running and not idle, and
  nothing otherwise. So a warning delay pending before an activity signal that passes
  the throttle is still pending after it and, fired then on a running guardian, emits
  \<open>warning\<close>.
\<close>

theorem arming_warning_delay:
  assumes "reachable s"
  shows "(\<not> isRunning s \<longrightarrow> rearmed s (start s))
       \<and> rearmed s (reset s)
       \<and> (activityThrottleMs (config s) \<le> clock s - lastActivity s \<longrightarrow> rearmed s (handleActivity s))
       \<and> (visibilityListener s \<and> (clock s - lastActivity s < timeoutMs s \<or> isIdle s)
            \<and> activityThrottleMs (config s) \<le> clock s - lastActivity s \<longrightarrow>
             rearmed s (dispatch_visibility False s))
       \<and> (0 < timeoutMs s - 60000 \<and> timeoutMs s \<le> 2147483647 \<longrightarrow>
             arm_delays s =
               [\<lparr> handle = nextHandle s, due = clock s + (timeoutMs s - 60000),
                  callback = WarningCallback \<rparr>,
                \<lparr> handle = nextHandle s + 1, due = clock s + timeoutMs s,
                  callback = IdleCallback \<rparr>])
       \<and> (timeoutMs s - 60000 \<le> 0 \<longrightarrow>
             arm_delays s =
               [\<lparr> handle = nextHandle s, due = clock s + timer_delay (timeoutMs s),
                  callback = IdleCallback \<rparr>])
       \<and> (\<forall>s' w. callback w = WarningCallback \<longrightarrow>
             emitted (fire w s') =
               emitted s' @ (if \<not> isIdle s' \<and> isRunning s' then [Ev_warning 60] else []))
       \<and> (\<forall>w \<in> set (warnings s).
             isRunning s \<and> activityThrottleMs (config s) \<le> clock s - lastActivity s \<longrightarrow>
               w \<in> set (warnings (handleActivity s))
             \<and> emitted (fire w (handleActivity s)) = emitted (handleActivity s) @ [Ev_warning 60])"
proof -
  from assms have i: "guardian_inv s" by (rule reachable_inv)
  have c1: "\<not> isRunning s \<longrightarrow> rearmed s (start s)"
    using i by (simp add: start_rearmed)
  have c2: "rearmed s (reset s)"
    using i by (rule reset_rearmed)
  have c3: "activityThrottleMs (config s) \<le> clock s - lastActivity s \<longrightarrow> rearmed s (handleActivity s)"
    using handleActivity_passed [OF i] by simp
  have c4: "visibilityListener s \<and> (clock s - lastActivity s < timeoutMs s \<or> isIdle s)
            \<and> activityThrottleMs (config s) \<le> clock s - lastActivity s \<longrightarrow>
             rearmed s (dispatch_visibility False s)"
  proof (intro impI)
    assume h: "visibilityListener s \<and> (clock s - lastActivity s < timeoutMs s \<or> isIdle s)
            \<and> activityThrottleMs (config s) \<le> clock s - lastActivity s"
    let ?s1 = "emit (Ev_visibility_change False) (s\<lparr> documentHidden := False \<rparr>)"
    from h have eq: "dispatch_visibility False s = handleActivity ?s1"
      by (auto simp: dispatch_visibility_def handleVisibilityChange_def Let_def timeoutMs_def)
    from i have i1: "guardian_inv ?s1" by simp
    from h have "activityThrottleMs (config ?s1) \<le> clock ?s1 - lastActivity ?s1" by simp
    with handleActivity_passed [OF i1] have "rearmed ?s1 (handleActivity ?s1)" by simp
    then have "rearmed s (handleActivity ?s1)"
      by (rule rearmed_cong) simp_all
    with eq show "rearmed s (dispatch_visibility False s)" by simp
  qed
  have c7: "\<forall>s' w. callback w = WarningCallback \<longrightarrow>
             emitted (fire w s') =
               emitted s' @ (if \<not> isIdle s' \<and> isRunning s' then [Ev_warning 60] else [])"
    by (simp add: emitted_fire_warning)
  have c8: "\<forall>w \<in> set (warnings s).
             isRunning s \<and> activityThrottleMs (config s) \<le> clock s - lastActivity s \<longrightarrow>
               w \<in> set (warnings (handleActivity s))
             \<and> emitted (fire w (handleActivity s)) = emitted (handleActivity s) @ [Ev_warning 60]"
  proof (intro ballI impI)
    fix w assume w: "w \<in> set (warnings s)"
      and h: "isRunning s \<and> activityThrottleMs (config s) \<le> clock s - lastActivity s"
    from handleActivity_passed [OF i] h
    have r: "rearmed s (handleActivity s)" and n: "\<not> isIdle (handleActivity s)"
      by simp_all
    from r w have mem: "w \<in> set (warnings (handleActivity s))"
      by (rule rearmed_warnings)
    from w have "callback w = WarningCallback"
      by (simp add: warnings_def)
    with h n have "emitted (fire w (handleActivity s)) = emitted (handleActivity s) @ [Ev_warning 60]"
      by (simp add: emitted_fire_warning)
    with mem show "w \<in> set (warnings (handleActivity s))
             \<and> emitted (fire w (handleActivity s)) = emitted (handleActivity s) @ [Ev_warning 60]" ..
  qed
  show ?thesis
    by (intro conjI) (fact c1 c2 c3 c4 arm_delays_in_range arm_delays_no_warning c7 c8)+
qed

text \<open>
  C6 as stated fails: with a timeout of 2 minutes, \<open>start\<close> schedules the warning
  delay of 60000 ms; after \<open>stop\<close> it is still pending, it elapses, and nothing is
  emitted.
\<close>

theorem warning_delay_silent_when_stopped:
  "warnings (run [Start]) = [\<lparr> handle = 1, due = 60000, callback = WarningCallback \<rparr>]
   \<and> warnings (run [Start, Stop]) = [\<lparr> handle = 1, due = 60000, callback = WarningCallback \<rparr>]
   \<and> pending (run [Start, Stop, Advance 60000]) = []
   \<and> emitted (run [Start, Stop, Advance 60000]) = []"
  by code_simp

theorem arming_warning_delay_witness:
  "warnings (run [Start, Advance 30000]) = [\<lparr> handle = 1, due = 60000, callback = WarningCallback \<rparr>]
   \<and> rearmed (run [Start, Advance 30000]) (handleActivity (run [Start, Advance 30000]))
   \<and> pending (handleActivity (run [Start, Advance 30000])) =
        [\<lparr> handle = 1, due = 60000, callback = WarningCallback \<rparr>,
         \<lparr> handle = 3, due = 90000, callback = WarningCallback \<rparr>,
         \<lparr> handle = 4, due = 150000, callback = IdleCallback \<rparr>]
   \<and> rearmed (run [Start, Advance 30000]) (reset (run [Start, Advance 30000]))
   \<and> rearmed (run []) (start (run []))
   \<and> pending (start (run [])) =
        [\<lparr> handle = 1, due = 60000, callback = WarningCallback \<rparr>,
         \<lparr> handle = 2, due = 120000, callback = IdleCallback \<rparr>]
   \<and> \<lparr> handle = 1, due = 60000, callback = WarningCallback \<rparr>
        \<in> set (warnings (handleActivity (run [Start, Advance 30000])))
   \<and> emitted (fire \<lparr> handle = 1, due = 60000, callback = WarningCallback \<rparr>
                (handleActivity (run [Start, Advance 30000]))) = [Ev_warning 60]
   \<and> emitted (run [Start, Advance 30000, Activity ''keydown'', Advance 30000]) = [Ev_warning 60]
   \<and> getTimeRemaining (run [Start, Advance 30000, Activity ''keydown'', Advance 30000]) = 90000"
proof -
  let ?s = "run [Start, Advance 30000]"
  let ?w = "\<lparr> handle = 1, due = 60000, callback = WarningCallback \<rparr>"
  have a: "warnings ?s = [?w]" by code_simp
  then have m: "?w \<in> set (warnings ?s)" by (simp only: list.set_intros)
  have b: "isRunning ?s \<and> activityThrottleMs (config ?s) \<le> clock ?s - lastActivity ?s"
    by code_simp
  then have b': "activityThrottleMs (config ?s) \<le> clock ?s - lastActivity ?s" ..
  have c: "emitted (handleActivity ?s) = []"
    by code_simp
  have d: "emitted (run [Start, Advance 30000, Activity ''keydown'', Advance 30000]) = [Ev_warning 60]"
          "getTimeRemaining (run [Start, Advance 30000, Activity ''keydown'', Advance 30000]) = 90000"
    by code_simp+
  have e: "warnings ?s @ arm_delays ?s =
        [\<lparr> handle = 1, due = 60000, callback = WarningCallback \<rparr>,
         \<lparr> handle = 3, due = 90000, callback = WarningCallback \<rparr>,
         \<lparr> handle = 4, due = 150000, callback = IdleCallback \<rparr>]"
    by code_simp
  have f: "\<not> isRunning (run [])" by code_simp
  have g: "warnings (run []) @ arm_delays (run []) =
        [\<lparr> handle = 1, due = 60000, callback = WarningCallback \<rparr>,
         \<lparr> handle = 2, due = 120000, callback = IdleCallback \<rparr>]"
    by code_simp
  note t = arming_warning_delay [OF reachable_run2, of "[Start, Advance 30000]"]
  note t0 = arming_warning_delay [OF reachable_run2, of "[]"]
  from t b' have w1: "rearmed ?s (handleActivity ?s)"
    by blast
  then have "pending (handleActivity ?s) = warnings ?s @ arm_delays ?s"
    by (simp only: rearmed_def)
  then have w2: "pending (handleActivity ?s) =
        [\<lparr> handle = 1, due = 60000, callback = WarningCallback \<rparr>,
         \<lparr> handle = 3, due = 90000, callback = WarningCallback \<rparr>,
         \<lparr> handle = 4, due = 150000, callback = IdleCallback \<rparr>]"
    by (simp only: e)
  from t have w3: "rearmed ?s (reset ?s)"
    by blast
  from t0 f have w4: "rearmed (run []) (start (run []))"
    by blast
  then have "pending (start (run [])) = warnings (run []) @ arm_delays (run [])"
    by (simp only: rearmed_def)
  then have w5: "pending (start (run [])) =
        [\<lparr> handle = 1, due = 60000, callback = WarningCallback \<rparr>,
         \<lparr> handle = 2, due = 120000, callback = IdleCallback \<rparr>]"
    by (simp only: g)
  from t have "\<forall>w \<in> set (warnings ?s).
             isRunning ?s \<and> activityThrottleMs (config ?s) \<le> clock ?s - lastActivity ?s \<longrightarrow>
               w \<in> set (warnings (handleActivity ?s))
             \<and> emitted (fire w (handleActivity ?s)) = emitted (handleActivity ?s) @ [Ev_warning 60]"
    by (elim conjE)
  with m b have "?w \<in> set (warnings (handleActivity ?s))
             \<and> emitted (fire ?w (handleActivity ?s)) = emitted (handleActivity ?s) @ [Ev_warning 60]"
    by blast
  then have w6: "?w \<in> set (warnings (handleActivity ?s))"
    and w7: "emitted (fire ?w (handleActivity ?s)) = [Ev_warning 60]"
    by (simp_all only: c append_Nil)
  show ?thesis
    by (intro conjI) (fact a w1 w2 w3 w4 w5 w6 w7 d)+
qed

section \<open>The platform functions CryptoService calls\<close>

text \<open>
  \<^verbatim>\<open>TextEncoder\<close>, \<^verbatim>\<open>TextDecoder\<close>, \<^verbatim>\<open>btoa\<close> and \<^verbatim>\<open>atob\<close> are functions of the
  browser, not of the repository; they are deterministic and are written out here as
  their standards define them (WHATWG Encoding, HTML forgiving base64). Code points
  and the arithmetic on bytes are natural numbers.
\<close>

type_synonym bytes = "byte list"

datatype error =
    TypeError | SyntaxError | InvalidCharacterError | OperationError
  | QuotaExceededError | BackendError

subsection \<open>TextEncoder.encode\<close>

definition is_high_surrogate :: "code_unit \<Rightarrow> bool" where
  "is_high_surrogate u \<longleftrightarrow> 0xD800 \<le> unat u \<and> unat u \<le> 0xDBFF"

definition is_low_surrogate :: "code_unit \<Rightarrow> bool" where
  "is_low_surrogate u \<longleftrightarrow> 0xDC00 \<le> unat u \<and> unat u \<le> 0xDFFF"

text \<open>
  The code points of a string: a high surrogate followed by a low one is one code point
  above \<open>0xFFFF\<close>, any other surrogate becomes \<open>U+FFFD\<close> (the conversion to a
  scalar value string that \<^verbatim>\<open>encode\<close> applies to its argument).
\<close>

fun code_points :: "jsstring \<Rightarrow> nat list" where
  "code_points [] = []"
| "code_points [u] =
     [if is_high_surrogate u \<or> is_low_surrogate u then 0xFFFD else unat u]"
| "code_points (u # v # rest) =
     (if is_high_surrogate u \<and> is_low_surrogate v
      then (0x10000 + (unat u - 0xD800) * 0x400 + (unat v - 0xDC00)) # code_points rest
      else (if is_high_surrogate u \<or> is_low_surrogate u then 0xFFFD else unat u)
             # code_points (v # rest))"

definition utf8_bytes :: "nat \<Rightarrow> nat list" where
  "utf8_bytes cp =
     (if cp < 0x80 then [cp]
      else if cp < 0x800 then [0xC0 + cp div 0x40, 0x80 + cp mod 0x40]
      else if cp < 0x10000 then
        [0xE0 + cp div 0x1000, 0x80 + (cp div 0x40) mod 0x40, 0x80 + cp mod 0x40]
      else
        [0xF0 + cp div 0x40000, 0x80 + (cp div 0x1000) mod 0x40,
         0x80 + (cp div 0x40) mod 0x40, 0x80 + cp mod 0x40])"

definition TextEncoder_encode :: "jsstring \<Rightarrow> bytes" where
  "TextEncoder_encode s = map of_nat (concat (map utf8_bytes (code_points s)))"

subsection \<open>TextDecoder.decode\<close>

text \<open>
  The UTF-8 decoder of the Encoding standard, with its variables: the code point under
  construction, the number of continuation bytes still needed, and the bounds for the
  next continuation byte. Malformed input never fails: it yields \<open>U+FFFD\<close>.
\<close>

record utf8_decoder =
  code_point :: nat
  bytes_needed :: nat
  lower_boundary :: nat
  upper_boundary :: nat

definition decoder_init :: utf8_decoder where
  "decoder_init = \<lparr> code_point = 0, bytes_needed = 0, lower_boundary = 0x80, upper_boundary = 0xBF \<rparr>"

text \<open>A byte read with no continuation pending: the output and the next state.\<close>

definition lead_byte :: "nat \<Rightarrow> nat list \<times> utf8_decoder" where
  "lead_byte b =
     (if b \<le> 0x7F then ([b], decoder_init)
      else if 0xC2 \<le> b \<and> b \<le> 0xDF then
        ([], decoder_init\<lparr> bytes_needed := 1, code_point := b mod 0x20 \<rparr>)
      else if 0xE0 \<le> b \<and> b \<le> 0xEF then
        ([], decoder_init\<lparr> bytes_needed := 2, code_point := b mod 0x10,
               lower_boundary := (if b = 0xE0 then 0xA0 else 0x80),
               upper_boundary := (if b = 0xED then 0x9F else 0xBF) \<rparr>)
      else if 0xF0 \<le> b \<and> b \<le> 0xF4 then
        ([], decoder_init\<lparr> bytes_needed := 3, code_point := b mod 0x08,
               lower_boundary := (if b = 0xF0 then 0x90 else 0x80),
               upper_boundary := (if b = 0xF4 then 0x8F else 0xBF) \<rparr>)
      else ([0xFFFD], decoder_init))"

fun utf8_decode :: "utf8_decoder \<Rightarrow> nat list \<Rightarrow> nat list" where
  "utf8_decode st [] = (if bytes_needed st \<noteq> 0 then [0xFFFD] else [])"
| "utf8_decode st (b # bs) =
     (if bytes_needed st = 0 then
        (case lead_byte b of (out, st') \<Rightarrow> out @ utf8_decode st' bs)
      else if \<not> (lower_boundary st \<le> b \<and> b \<le> upper_boundary st) then
        (case lead_byte b of (out, st') \<Rightarrow> 0xFFFD # out @ utf8_decode st' bs)
      else
        let cp = code_point st * 0x40 + b mod 0x40 in
        if bytes_needed st = 1 then cp # utf8_decode decoder_init bs
        else utf8_decode (st\<lparr> code_point := cp, bytes_needed := bytes_needed st - 1,
                               lower_boundary := 0x80, upper_boundary := 0xBF \<rparr>) bs)"

definition utf16_units :: "nat \<Rightarrow> jsstring" where
  "utf16_units cp =
     (if cp < 0x10000 then [of_nat cp]
      else [of_nat (0xD800 + (cp - 0x10000) div 0x400),
            of_nat (0xDC00 + (cp - 0x10000) mod 0x400)])"

text \<open>
  \<^verbatim>\<open>new TextDecoder().decode(buffer)\<close>: the decoder is created with the default
  \<^verbatim>\<open>ignoreBOM: false\<close>, so a byte order mark \<open>U+FEFF\<close> at the start of the output
  is dropped.
\<close>

definition strip_bom :: "nat list \<Rightarrow> nat list" where
  "strip_bom cps = (case cps of c # rest \<Rightarrow> if c = 0xFEFF then rest else cps | [] \<Rightarrow> [])"

definition TextDecoder_decode :: "bytes \<Rightarrow> jsstring" where
  "TextDecoder_decode buffer =
     concat (map utf16_units (strip_bom (utf8_decode decoder_init (map unat buffer))))"

subsection \<open>btoa and atob\<close>

definition b64_char :: "nat \<Rightarrow> code_unit" where
  "b64_char n =
     of_nat (if n < 26 then 65 + n
             else if n < 52 then 97 + (n - 26)
             else if n < 62 then 48 + (n - 52)
             else if n = 62 then 43 else 47)"

definition b64_index :: "code_unit \<Rightarrow> nat option" where
  "b64_index c =
     (let n = unat c in
      if 65 \<le> n \<and> n \<le> 90 then Some (n - 65)
      else if 97 \<le> n \<and> n \<le> 122 then Some (n - 97 + 26)
      else if 48 \<le> n \<and> n \<le> 57 then Some (n - 48 + 52)
      else if n = 43 then Some 62
      else if n = 47 then Some 63
      else None)"

definition pad_char :: code_unit where
  "pad_char = 61"

fun base64_encode :: "nat list \<Rightarrow> jsstring" where
  "base64_encode [] = []"
| "base64_encode [a] = [b64_char (a div 4), b64_char ((a mod 4) * 16), pad_char, pad_char]"
| "base64_encode [a, b] =
     [b64_char (a div 4), b64_char ((a mod 4) * 16 + b div 16), b64_char ((b mod 16) * 4),
      pad_char]"
| "base64_encode (a # b # c # rest) =
     [b64_char (a div 4), b64_char ((a mod 4) * 16 + b div 16),
      b64_char ((b mod 16) * 4 + c div 64), b64_char (c mod 64)] @ base64_encode rest"

text \<open>\<^verbatim>\<open>btoa\<close> throws on a code unit above \<open>0xFF\<close>.\<close>

definition btoa :: "jsstring \<Rightarrow> error + jsstring" where
  "btoa s =
     (if \<exists>u \<in> set s. 0xFF < unat u then Inl InvalidCharacterError
      else Inr (base64_encode (map unat s)))"

definition ascii_whitespace :: "code_unit \<Rightarrow> bool" where
  "ascii_whitespace c \<longleftrightarrow> c = 0x09 \<or> c = 0x0A \<or> c = 0x0C \<or> c = 0x0D \<or> c = 0x20"

text \<open>If the length is a multiple of 4, one or two trailing \<^verbatim>\<open>=\<close> are removed.\<close>

definition strip_padding :: "jsstring \<Rightarrow> jsstring" where
  "strip_padding s =
     (if length s mod 4 = 0 \<and> s \<noteq> [] \<and> last s = pad_char then
        (if butlast s \<noteq> [] \<and> last (butlast s) = pad_char then butlast (butlast s)
         else butlast s)
      else s)"

fun decode_sextets :: "nat list \<Rightarrow> nat list" where
  "decode_sextets (p # q # r # t # rest) =
     [p * 4 + q div 16, (q mod 16) * 16 + r div 4, (r mod 4) * 64 + t] @ decode_sextets rest"
| "decode_sextets [p, q, r] = [p * 4 + q div 16, (q mod 16) * 16 + r div 4]"
| "decode_sextets [p, q] = [p * 4 + q div 16]"
| "decode_sextets _ = []"

definition atob :: "jsstring \<Rightarrow> error + jsstring" where
  "atob data =
     (let s = strip_padding (filter (\<lambda>c. \<not> ascii_whitespace c) data) in
      if length s mod 4 = 1 then Inl InvalidCharacterError
      else if \<exists>c \<in> set s. b64_index c = None then Inl InvalidCharacterError
      else Inr (map of_nat (decode_sextets (map (\<lambda>c. the (b64_index c)) s))))"

subsection \<open>Web Crypto\<close>

text \<open>
  AES-GCM, key generation and the random source belong to the browser and are not
  deterministic; they are parameters of the model. \<open>generateKey n\<close> is the outcome of
  the \<open>n\<close>-th call of \<^verbatim>\<open>crypto.subtle.generateKey\<close> in the page (a key, or the
  rejection of the promise), \<open>random_byte n\<close> is the \<open>n\<close>-th byte that
  \<^verbatim>\<open>crypto.getRandomValues\<close> hands out, and \<open>subtle_encrypt\<close> and
  \<open>subtle_decrypt\<close> take the key, the IV and the data, and return the result or the
  rejection.
\<close>

record 'k web_crypto =
  generateKey :: "nat \<Rightarrow> error + 'k"
  random_byte :: "nat \<Rightarrow> byte"
  subtle_encrypt :: "'k \<Rightarrow> bytes \<Rightarrow> bytes \<Rightarrow> error + bytes"
  subtle_decrypt :: "'k \<Rightarrow> bytes \<Rightarrow> bytes \<Rightarrow> error + bytes"

section \<open>CryptoService\<close>

definition IV_LENGTH :: nat where
  "IV_LENGTH = 12"

record EncryptedData =
  iv :: jsstring
  data :: jsstring

text \<open>
  The two private fields of the service, and what the model keeps of the page: how many
  keys have been generated, how many random bytes have been drawn, and which promises
  of \<^verbatim>\<open>generateKey\<close> are still pending. The promise that the \<open>n\<close>-th call of
  \<^verbatim>\<open>generateKey\<close> returns is identified with \<open>n\<close>; it settles with
  \<open>generateKey W n\<close>.
\<close>

record 'k CryptoService =
  key :: "'k option"
  keyPromise :: "nat option"
  keys_generated :: nat
  bytes_drawn :: nat
  generating :: "nat list"

definition new_CryptoService :: "'k CryptoService" where
  "new_CryptoService =
     \<lparr> key = None, keyPromise = None, keys_generated = 0, bytes_drawn = 0, generating = [] \<rparr>"

text \<open>
  \<open>getKey\<close> is an \<^verbatim>\<open>async\<close> function: it runs inside the call up to its first
  \<^verbatim>\<open>await\<close> or \<^verbatim>\<open>return\<close>. The promise the caller gets is resolved with the cached
  key, or it follows the promise of a key generation: the one in \<open>keyPromise\<close>, or the
  one this call has just started.
\<close>

datatype 'k key_promise = Resolved 'k | Generation nat

definition getKey_call :: "'k CryptoService \<Rightarrow> 'k key_promise \<times> 'k CryptoService" where
  "getKey_call s =
     (case key s of
        Some k \<Rightarrow> (Resolved k, s)
      | None \<Rightarrow>
          (case keyPromise s of
             Some n \<Rightarrow> (Generation n, s)
           | None \<Rightarrow>
               (Generation (keys_generated s),
                s\<lparr> keyPromise := Some (keys_generated s),
                   keys_generated := keys_generated s + 1,
                   generating := generating s @ [keys_generated s] \<rparr>)))"

text \<open>
  When the promise of generation \<open>n\<close> settles, the call of \<open>getKey\<close> that started it
  is the first to resume: \<^verbatim>\<open>this.key = await this.keyPromise\<close> stores the key,
  whatever \<open>key\<close> and \<open>keyPromise\<close> hold by then; a rejection is thrown on and nothing
  is stored. The calls that were handed this promise resume after that.
\<close>

definition getKey_resume :: "'k web_crypto \<Rightarrow> nat \<Rightarrow> 'k CryptoService \<Rightarrow> 'k CryptoService" where
  "getKey_resume W n s =
     (if n \<in> set (generating s)
      then (case generateKey W n of
              Inl e \<Rightarrow> s\<lparr> generating := removeAll n (generating s) \<rparr>
            | Inr k \<Rightarrow> s\<lparr> key := Some k, generating := removeAll n (generating s) \<rparr>)
      else s)"

definition settled :: "'k CryptoService \<Rightarrow> 'k key_promise \<Rightarrow> bool" where
  "settled s p = (case p of Resolved k \<Rightarrow> True | Generation n \<Rightarrow> n \<notin> set (generating s))"

definition outcome :: "'k web_crypto \<Rightarrow> 'k key_promise \<Rightarrow> error + 'k" where
  "outcome W p = (case p of Resolved k \<Rightarrow> Inr k | Generation n \<Rightarrow> generateKey W n)"

text \<open>\<open>getKey\<close> awaited, with nothing else running before it returns.\<close>

definition getKey :: "'k web_crypto \<Rightarrow> 'k CryptoService \<Rightarrow> (error + 'k) \<times> 'k CryptoService" where
  "getKey W s =
     (case getKey_call s of
        (Resolved k, s1) \<Rightarrow> (Inr k, s1)
      | (Generation n, s1) \<Rightarrow> (generateKey W n, getKey_resume W n s1))"

definition getRandomValues :: "'k web_crypto \<Rightarrow> nat \<Rightarrow> 'k CryptoService \<Rightarrow> bytes \<times> 'k CryptoService" where
  "getRandomValues W n s =
     (map (random_byte W) [bytes_drawn s ..< bytes_drawn s + n],
      s\<lparr> bytes_drawn := bytes_drawn s + n \<rparr>)"

definition arrayBufferToBase64 :: "bytes \<Rightarrow> error + jsstring" where
  "arrayBufferToBase64 buffer = btoa (map (\<lambda>b. of_nat (unat b)) buffer)"

definition base64ToArrayBuffer :: "jsstring \<Rightarrow> error + bytes" where
  "base64ToArrayBuffer base64 =
     (case atob base64 of
        Inl e \<Rightarrow> Inl e
      | Inr binaryString \<Rightarrow> Inr (map (\<lambda>u. of_nat (unat u)) binaryString))"

text \<open>
  A call of \<open>encrypt\<close> or \<open>decrypt\<close> that has not returned yet waits at one of its
  two \<^verbatim>\<open>await\<close>s: for the promise of \<open>getKey\<close>, or for the promise of
  \<^verbatim>\<open>crypto.subtle\<close>, whose outcome the model knows already. \<open>resume\<close> runs the call
  from one \<^verbatim>\<open>await\<close> to the next, or to its \<^verbatim>\<open>return\<close>. In \<open>decrypt\<close> the whole
  body is inside \<^verbatim>\<open>try\<close>, and the \<^verbatim>\<open>catch\<close> returns \<^verbatim>\<open>null\<close>, which is \<open>None\<close>.
\<close>

datatype 'k task =
    Encrypt_awaits_key jsstring "'k key_promise"
  | Encrypt_awaits_subtle bytes "error + bytes"
  | Encrypt_returned "error + EncryptedData"
  | Decrypt_awaits_key EncryptedData "'k key_promise"
  | Decrypt_awaits_subtle "error + bytes"
  | Decrypt_returned "jsstring option"

fun can_resume :: "'k CryptoService \<Rightarrow> 'k task \<Rightarrow> bool" where
  "can_resume s (Encrypt_awaits_key plaintext p) = settled s p"
| "can_resume s (Decrypt_awaits_key encrypted p) = settled s p"
| "can_resume s t = True"

fun resume :: "'k web_crypto \<Rightarrow> 'k task \<Rightarrow> 'k CryptoService \<Rightarrow> 'k task \<times> 'k CryptoService" where
  "resume W (Encrypt_awaits_key plaintext p) s =
     (case outcome W p of
        Inl e \<Rightarrow> (Encrypt_returned (Inl e), s)
      | Inr k \<Rightarrow>
          let encoded = TextEncoder_encode plaintext;
              (iv_bytes, s2) = getRandomValues W IV_LENGTH s
          in (Encrypt_awaits_subtle iv_bytes (subtle_encrypt W k iv_bytes encoded), s2))"
| "resume W (Encrypt_awaits_subtle iv_bytes r) s =
     (case r of
        Inl e \<Rightarrow> (Encrypt_returned (Inl e), s)
      | Inr encrypted \<Rightarrow>
          (case arrayBufferToBase64 iv_bytes of
             Inl e \<Rightarrow> (Encrypt_returned (Inl e), s)
           | Inr iv64 \<Rightarrow>
               (case arrayBufferToBase64 encrypted of
                  Inl e \<Rightarrow> (Encrypt_returned (Inl e), s)
                | Inr data64 \<Rightarrow> (Encrypt_returned (Inr \<lparr> iv = iv64, data = data64 \<rparr>), s))))"
| "resume W (Decrypt_awaits_key encrypted p) s =
     (case outcome W p of
        Inl e \<Rightarrow> (Decrypt_returned None, s)
      | Inr k \<Rightarrow>
          (case base64ToArrayBuffer (iv encrypted) of
             Inl e \<Rightarrow> (Decrypt_returned None, s)
           | Inr iv_bytes \<Rightarrow>
               (case base64ToArrayBuffer (data encrypted) of
                  Inl e \<Rightarrow> (Decrypt_returned None, s)
                | Inr data_bytes \<Rightarrow>
                    (Decrypt_awaits_subtle (subtle_decrypt W k iv_bytes data_bytes), s))))"
| "resume W (Decrypt_awaits_subtle r) s =
     (case r of
        Inl e \<Rightarrow> (Decrypt_returned None, s)
      | Inr decrypted \<Rightarrow> (Decrypt_returned (Some (TextDecoder_decode decrypted)), s))"
| "resume W (Encrypt_returned r) s = (Encrypt_returned r, s)"
| "resume W (Decrypt_returned r) s = (Decrypt_returned r, s)"

text \<open>
  \<open>encrypt\<close> and \<open>decrypt\<close> awaited, with nothing else running before they return
  (lemmas \<open>encrypt_awaited\<close> and \<open>decrypt_awaited\<close> below).
\<close>

definition encrypt ::
  "'k web_crypto \<Rightarrow> jsstring \<Rightarrow> 'k CryptoService \<Rightarrow> (error + EncryptedData) \<times> 'k CryptoService"
where
  "encrypt W plaintext s =
     (case getKey W s of
        (Inl e, s1) \<Rightarrow> (Inl e, s1)
      | (Inr k, s1) \<Rightarrow>
          let encoded = TextEncoder_encode plaintext;
              (iv_bytes, s2) = getRandomValues W IV_LENGTH s1
          in (case subtle_encrypt W k iv_bytes encoded of
                Inl e \<Rightarrow> (Inl e, s2)
              | Inr encrypted \<Rightarrow>
                  (case arrayBufferToBase64 iv_bytes of
                     Inl e \<Rightarrow> (Inl e, s2)
                   | Inr iv64 \<Rightarrow>
                       (case arrayBufferToBase64 encrypted of
                          Inl e \<Rightarrow> (Inl e, s2)
                        | Inr data64 \<Rightarrow> (Inr \<lparr> iv = iv64, data = data64 \<rparr>, s2)))))"

definition decrypt ::
  "'k web_crypto \<Rightarrow> EncryptedData \<Rightarrow> 'k CryptoService \<Rightarrow> jsstring option \<times> 'k CryptoService"
where
  "decrypt W encrypted s =
     (case getKey W s of
        (Inl e, s1) \<Rightarrow> (None, s1)
      | (Inr k, s1) \<Rightarrow>
          (case base64ToArrayBuffer (iv encrypted) of
             Inl e \<Rightarrow> (None, s1)
           | Inr iv_bytes \<Rightarrow>
               (case base64ToArrayBuffer (data encrypted) of
                  Inl e \<Rightarrow> (None, s1)
                | Inr data_bytes \<Rightarrow>
                    (case subtle_decrypt W k iv_bytes data_bytes of
                       Inl e \<Rightarrow> (None, s1)
                     | Inr decrypted \<Rightarrow> (Some (TextDecoder_decode decrypted), s1)))))"

definition clearKey :: "'k CryptoService \<Rightarrow> 'k CryptoService" where
  "clearKey s = s\<lparr> key := None, keyPromise := None \<rparr>"

text \<open>
  A service with its calls in flight. What can happen next: the client calls a method
  (a call of \<open>encrypt\<close> or \<open>decrypt\<close> joins the calls in flight, at its first
  \<^verbatim>\<open>await\<close>), the promise of a key generation settles, or a call in flight that has
  what it waits for resumes. The order is free but for the one the language fixes: a
  call that waits for a key generation resumes after the call of \<open>getKey\<close> that started
  it.
\<close>

record 'k running =
  service :: "'k CryptoService"
  calls :: "'k task list"

datatype event =
    Call_getKey | Call_encrypt jsstring | Call_decrypt EncryptedData | Call_clearKey
  | Settle nat | Resume nat

fun after_event :: "'k web_crypto \<Rightarrow> event \<Rightarrow> 'k running \<Rightarrow> 'k running" where
  "after_event W Call_getKey r = r\<lparr> service := snd (getKey_call (service r)) \<rparr>"
| "after_event W (Call_encrypt plaintext) r =
     (let (p, s1) = getKey_call (service r)
      in \<lparr> service = s1, calls = calls r @ [Encrypt_awaits_key plaintext p] \<rparr>)"
| "after_event W (Call_decrypt encrypted) r =
     (let (p, s1) = getKey_call (service r)
      in \<lparr> service = s1, calls = calls r @ [Decrypt_awaits_key encrypted p] \<rparr>)"
| "after_event W Call_clearKey r = r\<lparr> service := clearKey (service r) \<rparr>"
| "after_event W (Settle n) r = r\<lparr> service := getKey_resume W n (service r) \<rparr>"
| "after_event W (Resume i) r =
     (if i < length (calls r) \<and> can_resume (service r) (calls r ! i)
      then let (t, s1) = resume W (calls r ! i) (service r)
           in \<lparr> service = s1, calls = (calls r)[i := t] \<rparr>
      else r)"



subsection \<open>Decoding base64 inverts encoding\<close>

text \<open>The 6-bit groups of a byte sequence, and the padding of its encoding.\<close>

fun sextets :: "nat list \<Rightarrow> nat list" where
  "sextets [] = []"
| "sextets [a] = [a div 4, (a mod 4) * 16]"
| "sextets [a, b] = [a div 4, (a mod 4) * 16 + b div 16, (b mod 16) * 4]"
| "sextets (a # b # c # rest) =
     [a div 4, (a mod 4) * 16 + b div 16, (b mod 16) * 4 + c div 64, c mod 64] @ sextets rest"

definition padding :: "nat list \<Rightarrow> jsstring" where
  "padding ns = replicate ((3 - length ns mod 3) mod 3) pad_char"

lemma unat_code_unit: "n < 65536 \<Longrightarrow> unat (of_nat n :: code_unit) = n"
  by (simp add: unat_of_nat)

lemma unat_byte: "n < 256 \<Longrightarrow> unat (of_nat n :: byte) = n"
  by (simp add: unat_of_nat)

lemma unat_b64_char:
  assumes "n < 64"
  shows "unat (b64_char n) =
           (if n < 26 then 65 + n else if n < 52 then 97 + (n - 26)
            else if n < 62 then 48 + (n - 52) else if n = 62 then 43 else 47)"
  unfolding b64_char_def by (rule unat_code_unit) (use assms in \<open>simp; arith\<close>)

lemma b64_index_char: "n < 64 \<Longrightarrow> b64_index (b64_char n) = Some n"
  by (simp add: b64_index_def unat_b64_char Let_def; arith)

lemma b64_char_not_pad: "n < 64 \<Longrightarrow> b64_char n \<noteq> pad_char"
proof
  assume n: "n < 64" and "b64_char n = pad_char"
  then have "unat (b64_char n) = 61" by (simp add: pad_char_def)
  with n show False
    by (simp add: unat_b64_char split: if_splits; arith)
qed

lemma b64_char_not_ws: "n < 64 \<Longrightarrow> \<not> ascii_whitespace (b64_char n)"
proof
  assume n: "n < 64" and "ascii_whitespace (b64_char n)"
  then have "unat (b64_char n) \<in> {9, 10, 12, 13, 32}"
    by (auto simp: ascii_whitespace_def)
  with n show False
    by (simp add: unat_b64_char split: if_splits; arith)
qed

lemma pad_not_ws: "\<not> ascii_whitespace pad_char"
  by (simp add: ascii_whitespace_def pad_char_def)

lemma pad_no_index: "b64_index pad_char = None"
  by (simp add: b64_index_def pad_char_def)

lemma base64_encode_sextets:
  "base64_encode ns = map b64_char (sextets ns) @ padding ns"
  by (induction ns rule: base64_encode.induct) (simp_all add: padding_def numeral_2_eq_2)

lemma sextet_arith:
  fixes a b c x :: nat
  shows "a < 256 \<Longrightarrow> a div 4 < 64"
    and "b < 256 \<Longrightarrow> (a mod 4) * 16 + b div 16 < 64"
    and "c < 256 \<Longrightarrow> (b mod 16) * 4 + c div 64 < 64"
    and "(a mod 4) * 16 < 64" and "(b mod 16) * 4 < 64" and "c mod 64 < 64"
  by arith+

lemma div_small:
  fixes b c :: nat
  shows "b < 256 \<Longrightarrow> b div 16 < 16" and "c < 256 \<Longrightarrow> c div 64 < 4"
  by arith+

lemma shift_div_mod:
  fixes x y n :: nat
  assumes "y < n"
  shows "(x * n + y) div n = x" and "(x * n + y) mod n = y"
  using assms by simp_all

lemma sextet_inverse:
  fixes a b c :: nat
  shows "b < 256 \<Longrightarrow> a div 4 * 4 + ((a mod 4) * 16 + b div 16) div 16 = a"
    and "b < 256 \<Longrightarrow> c < 256 \<Longrightarrow>
           (((a mod 4) * 16 + b div 16) mod 16) * 16 + ((b mod 16) * 4 + c div 64) div 4 = b"
    and "c < 256 \<Longrightarrow> (((b mod 16) * 4 + c div 64) mod 4) * 64 + c mod 64 = c"
    and "a div 4 * 4 + ((a mod 4) * 16) div 16 = a"
    and "b < 256 \<Longrightarrow> (((a mod 4) * 16 + b div 16) mod 16) * 16 + ((b mod 16) * 4) div 4 = b"
  by (simp_all add: shift_div_mod div_small)

lemma sextets_bound: "\<forall>n \<in> set ns. n < 256 \<Longrightarrow> \<forall>x \<in> set (sextets ns). x < 64"
  by (induction ns rule: sextets.induct) (simp_all add: sextet_arith)

lemma decode_sextets_sextets: "\<forall>n \<in> set ns. n < 256 \<Longrightarrow> decode_sextets (sextets ns) = ns"
proof (induction ns rule: sextets.induct)
  case 1
  show ?case by simp
next
  case (2 a)
  have "decode_sextets (sextets [a]) = [a div 4 * 4 + ((a mod 4) * 16) div 16]"
    by (simp only: sextets.simps decode_sextets.simps)
  then show ?case by (simp only: sextet_inverse(4))
next
  case (3 a b)
  then have b: "b < 256" by simp
  have "decode_sextets (sextets [a, b]) =
          [a div 4 * 4 + ((a mod 4) * 16 + b div 16) div 16,
           (((a mod 4) * 16 + b div 16) mod 16) * 16 + ((b mod 16) * 4) div 4]"
    by (simp only: sextets.simps decode_sextets.simps)
  then show ?case by (simp only: sextet_inverse(1) [OF b] sextet_inverse(5) [OF b])
next
  case (4 a b c rest)
  then have b: "b < 256" and c: "c < 256" and r: "decode_sextets (sextets rest) = rest"
    by simp_all
  have "decode_sextets (sextets (a # b # c # rest)) =
          [a div 4 * 4 + ((a mod 4) * 16 + b div 16) div 16,
           (((a mod 4) * 16 + b div 16) mod 16) * 16 + ((b mod 16) * 4 + c div 64) div 4,
           (((b mod 16) * 4 + c div 64) mod 4) * 64 + c mod 64] @ decode_sextets (sextets rest)"
    by (simp only: sextets.simps decode_sextets.simps append_Cons append_Nil)
  then show ?case
    by (simp only: sextet_inverse(1) [OF b] sextet_inverse(2) [OF b c] sextet_inverse(3) [OF c] r
          append_Cons append_Nil)
qed

lemma length_sextets: "length (sextets ns) mod 4 \<noteq> 1"
  by (induction ns rule: sextets.induct) simp_all

lemma strip_padding_encode:
  assumes "\<forall>x \<in> set xs. x \<noteq> pad_char" "k \<le> 2" "length (xs @ replicate k pad_char) mod 4 = 0"
  shows "strip_padding (xs @ replicate k pad_char) = xs"
proof -
  consider "k = 0" | "k = 1" | "k = 2" using assms(2) by arith
  then show ?thesis
  proof cases
    case 1
    with assms(1) show ?thesis
      by (cases xs rule: rev_cases) (simp_all add: strip_padding_def)
  next
    case 2
    have last_xs: "xs \<noteq> [] \<Longrightarrow> last xs \<noteq> pad_char"
      using assms(1) last_in_set by blast
    from 2 have "xs @ replicate k pad_char = xs @ [pad_char]"
      by simp
    moreover from 2 assms(3) have "Suc (length xs) mod 4 = 0" "xs \<noteq> []"
      by auto
    ultimately show ?thesis
      using last_xs by (simp add: strip_padding_def)
  next
    case 3
    then have eq: "xs @ replicate k pad_char = (xs @ [pad_char]) @ [pad_char]"
      by (simp add: numeral_2_eq_2)
    have "strip_padding ((xs @ [pad_char]) @ [pad_char]) = xs"
      using assms(3) unfolding eq strip_padding_def
      by (simp only: last_snoc butlast_snoc) simp
    with eq show ?thesis by simp
  qed
qed

lemma length_encode: "length (base64_encode ns) mod 4 = 0"
  by (induction ns rule: base64_encode.induct) simp_all

lemma atob_base64_encode:
  assumes "\<forall>n \<in> set ns. n < 256"
  shows "atob (base64_encode ns) = Inr (map of_nat ns)"
proof -
  let ?xs = "map b64_char (sextets ns)"
  from assms have bound: "\<forall>x \<in> set (sextets ns). x < 64"
    by (rule sextets_bound)
  have enc: "base64_encode ns = ?xs @ padding ns"
    by (rule base64_encode_sextets)
  from bound have nows: "filter (\<lambda>c. \<not> ascii_whitespace c) (base64_encode ns) = base64_encode ns"
    by (auto simp: enc padding_def b64_char_not_ws pad_not_ws)
  from bound have nopad: "\<forall>x \<in> set ?xs. x \<noteq> pad_char"
    by (auto simp: b64_char_not_pad)
  have k: "(3 - length ns mod 3) mod 3 \<le> 2" by arith
  have len: "length (?xs @ replicate ((3 - length ns mod 3) mod 3) pad_char) mod 4 = 0"
    using length_encode [of ns] by (simp only: enc padding_def)
  have strip: "strip_padding (base64_encode ns) = ?xs"
    unfolding enc padding_def using nopad k len by (rule strip_padding_encode)
  from bound have idx: "map (\<lambda>c. the (b64_index c)) ?xs = sextets ns"
    by (simp add: b64_index_char map_idI)
  from bound have ok: "\<not> (\<exists>c \<in> set ?xs. b64_index c = None)"
    by (auto simp: b64_index_char)
  have l1: "length ?xs mod 4 \<noteq> 1"
    using length_sextets [of ns] by simp
  show ?thesis
    unfolding atob_def nows strip Let_def idx
    using ok l1 assms by (simp add: decode_sextets_sextets)
qed

lemma unat_byte_less: "unat (b :: byte) < 256"
proof -
  have "unat b < 2 ^ LENGTH(8)" by (rule unsigned_less)
  then show ?thesis by simp
qed

lemma unat_widen: "unat (of_nat (unat (b :: byte)) :: code_unit) = unat b"
proof (rule unat_code_unit)
  show "unat b < 65536" using unat_byte_less [of b] by arith
qed

lemma map_unat_widen:
  "map unat (map (\<lambda>b. of_nat (unat b) :: code_unit) (buffer :: bytes)) = map unat buffer"
  by (induction buffer) (simp_all only: list.map unat_widen)

lemma narrow_widen: "n < 256 \<Longrightarrow> (of_nat (unat (of_nat n :: code_unit)) :: byte) = of_nat n"
proof -
  assume "n < 256"
  then have "unat (of_nat n :: code_unit) = n" by (intro unat_code_unit) arith
  then show ?thesis by (simp only:)
qed

lemma map_narrow:
  "map (\<lambda>u. of_nat (unat u) :: byte) (map (of_nat :: nat \<Rightarrow> code_unit) (map unat (buffer :: bytes))) = buffer"
proof (induction buffer)
  case Nil
  show ?case by simp
next
  case (Cons b buffer)
  have "(of_nat (unat (of_nat (unat b) :: code_unit)) :: byte) = of_nat (unat b)"
    by (rule narrow_widen) (rule unat_byte_less)
  also have "\<dots> = b" by simp
  finally show ?case using Cons by (simp only: list.map)
qed

lemma base64_roundtrip:
  "arrayBufferToBase64 buffer = Inr (base64_encode (map unat buffer))"
  "base64ToArrayBuffer (base64_encode (map unat buffer)) = Inr buffer"
proof -
  have small: "\<forall>n \<in> set (map unat buffer). n < 256"
    by (simp add: unat_byte_less)
  have "\<not> (\<exists>u \<in> set (map (\<lambda>b. of_nat (unat b) :: code_unit) buffer). 0xFF < unat u)"
  proof
    assume "\<exists>u \<in> set (map (\<lambda>b. of_nat (unat b) :: code_unit) buffer). 0xFF < unat u"
    then obtain b where "0xFF < unat (of_nat (unat b) :: code_unit)" and "b \<in> set buffer"
      by (auto simp del: of_nat_unat)
    then show False
      using unat_byte_less [of b] by (simp only: unat_widen; arith)
  qed
  then show "arrayBufferToBase64 buffer = Inr (base64_encode (map unat buffer))"
    unfolding arrayBufferToBase64_def btoa_def by (simp only: if_False map_unat_widen)
  have "atob (base64_encode (map unat buffer)) = Inr (map of_nat (map unat buffer))"
    using small by (rule atob_base64_encode)
  then show "base64ToArrayBuffer (base64_encode (map unat buffer)) = Inr buffer"
    unfolding base64ToArrayBuffer_def by (simp only: sum.case map_narrow)
qed

subsection \<open>The contract of the primitives\<close>

text \<open>
  What the model assumes of the browser's AES-GCM and key generation: with a 12-byte IV
  encryption succeeds, its output is not empty (it ends with the authentication tag)
  and decrypts to the plaintext under the same key and IV; data encrypted under one key
  is rejected under any other key; and two calls of \<^verbatim>\<open>generateKey\<close> never return the
  same key. (The last two hold of the real primitives up to a negligible probability.)
\<close>

definition aead_contract :: "'k web_crypto \<Rightarrow> bool" where
  "aead_contract W \<longleftrightarrow>
     (\<forall>k ivb m. length ivb = IV_LENGTH \<longrightarrow>
        (\<exists>c. subtle_encrypt W k ivb m = Inr c \<and> c \<noteq> [] \<and> subtle_decrypt W k ivb c = Inr m)) \<and>
     (\<forall>k k' ivb ivb' m c. subtle_encrypt W k ivb m = Inr c \<and> k' \<noteq> k \<longrightarrow>
        (\<exists>e. subtle_decrypt W k' ivb' c = Inl e)) \<and>
     (\<forall>i j k. generateKey W i = Inr k \<and> generateKey W j = Inr k \<longrightarrow> i = j)"

text \<open>
  A small instance of the parameters that meets the contract, for concrete runs: keys are
  bytes, encryption adds the key to every byte and appends a 16-byte tag made of the key.
\<close>

definition ref_tag :: "byte \<Rightarrow> bytes" where
  "ref_tag k = [k, k, k, k, k, k, k, k, k, k, k, k, k, k, k, k]"

definition ref_crypto :: "byte web_crypto" where
  "ref_crypto =
     \<lparr> generateKey = (\<lambda>n. if n < 255 then Inr (of_nat (n + 1)) else Inl OperationError),
       random_byte = (\<lambda>n. of_nat (37 * n + 11)),
       subtle_encrypt = (\<lambda>k ivb m. Inr (map (\<lambda>b. b + k) m @ ref_tag k)),
       subtle_decrypt = (\<lambda>k ivb c.
          if 16 \<le> length c \<and> drop (length c - 16) c = ref_tag k
          then Inr (map (\<lambda>b. b - k) (take (length c - 16) c))
          else Inl OperationError) \<rparr>"


text \<open>Sample payloads, as the instance above produces them with its first key.\<close>

definition bom_abc_payload :: EncryptedData where
  "bom_abc_payload =
     \<lparr> iv = lit ''CzBVep/E6Q4zWH2i'', data = lit ''8LzAYmNkAQEBAQEBAQEBAQEBAQEBAQ=='' \<rparr>"


definition first_key_state :: "byte CryptoService" where
  "first_key_state =
     \<lparr> key = Some 1, keyPromise = Some 0, keys_generated = 1, bytes_drawn = 12, generating = [] \<rparr>"

subsection \<open>Properties of encrypt and decrypt\<close>

lemma ref_contract: "aead_contract ref_crypto"
proof -
  have inj: "i = j" if "i < 255" "j < 255" "(of_nat (i + 1) :: byte) = of_nat (j + 1)" for i j :: nat
  proof -
    from that(3) have "unat (of_nat (i + 1) :: byte) = unat (of_nat (j + 1) :: byte)" by simp
    moreover from that(1,2) have "i + 1 < 256" "j + 1 < 256" by simp_all
    ultimately have "i + 1 = j + 1" by (simp only: unat_byte)
    then show ?thesis by simp
  qed
  have rep: "ref_tag k' \<noteq> ref_tag k" if "k' \<noteq> k" for k k' :: byte
    using that by (simp add: ref_tag_def)
  have len: "length (ref_tag k) = 16" "ref_tag k \<noteq> []" for k
    by (simp_all add: ref_tag_def)
  show ?thesis
    unfolding aead_contract_def ref_crypto_def
    by (auto simp: comp_def len dest: inj rep split: if_splits)
qed

lemma contract_decrypt:
  assumes "aead_contract W" "length ivb = IV_LENGTH" "subtle_encrypt W k ivb m = Inr c"
  shows "subtle_decrypt W k ivb c = Inr m" and "c \<noteq> []"
proof -
  from assms(1,2) obtain c' where "subtle_encrypt W k ivb m = Inr c'" "c' \<noteq> []"
    "subtle_decrypt W k ivb c' = Inr m"
    unfolding aead_contract_def by blast
  with assms(3) show "subtle_decrypt W k ivb c = Inr m" and "c \<noteq> []" by simp_all
qed


lemma getKey_cases:
  "getKey W s =
     (case key s of
        Some k \<Rightarrow> (Inr k, s)
      | None \<Rightarrow>
          (case keyPromise s of
             Some n \<Rightarrow> (generateKey W n, getKey_resume W n s)
           | None \<Rightarrow>
               (generateKey W (keys_generated s),
                getKey_resume W (keys_generated s)
                  (s\<lparr> keyPromise := Some (keys_generated s),
                     keys_generated := keys_generated s + 1,
                     generating := generating s @ [keys_generated s] \<rparr>))))"
  by (simp add: getKey_def getKey_call_def split: option.splits)

lemma getKey_again: "getKey W s = (Inr k, s') \<Longrightarrow> getKey W s' = (Inr k, s')"
  by (auto simp: getKey_cases getKey_resume_def split: option.splits sum.splits if_splits)

lemma getKey_bytes_drawn:
  assumes "getKey W s = (Inr k, s)"
  shows "getKey W (s\<lparr> bytes_drawn := n \<rparr>) = (Inr k, s\<lparr> bytes_drawn := n \<rparr>)"
proof (cases "key s")
  case (Some k')
  with assms show ?thesis by (simp add: getKey_cases)
next
  case None
  show ?thesis
  proof (cases "keyPromise s")
    case (Some m)
    with None assms have g: "generateKey W m = Inr k" and r: "getKey_resume W m s = s"
      by (simp_all add: getKey_cases)
    have "m \<notin> set (generating s)"
    proof
      assume "m \<in> set (generating s)"
      with g have "key (getKey_resume W m s) = Some k" by (simp add: getKey_resume_def)
      with r None show False by simp
    qed
    with None Some g show ?thesis
      by (simp add: getKey_cases getKey_resume_def)
  next
    case nopromise: None
    from assms have "keys_generated (snd (getKey W s)) = keys_generated s" by simp
    with None nopromise have False
      by (simp add: getKey_cases getKey_resume_def split: sum.splits)
    then show ?thesis ..
  qed
qed

lemma length_getRandomValues: "length (fst (getRandomValues W n s)) = n"
  by (simp add: getRandomValues_def)

lemma decrypt_encrypt:
  assumes "aead_contract W" "encrypt W plaintext s = (Inr p, s1)"
  shows "decrypt W p s1 = (Some (TextDecoder_decode (TextEncoder_encode plaintext)), s1)"
proof (cases "getKey W s")
  case (Pair r s')
  with assms(2) obtain k where r: "r = Inr k"
    by (cases r) (simp_all add: encrypt_def)
  let ?ivb = "map (random_byte W) [bytes_drawn s' ..< bytes_drawn s' + IV_LENGTH]"
  from assms(2) Pair r obtain c where
    c: "subtle_encrypt W k ?ivb (TextEncoder_encode plaintext) = Inr c"
    and p: "p = \<lparr> iv = base64_encode (map unat ?ivb), data = base64_encode (map unat c) \<rparr>"
    and s1: "s1 = s'\<lparr> bytes_drawn := bytes_drawn s' + IV_LENGTH \<rparr>"
    by (auto simp: encrypt_def getRandomValues_def Let_def base64_roundtrip(1) split: sum.splits)
  have "length ?ivb = IV_LENGTH" by simp
  with assms(1) have d: "subtle_decrypt W k ?ivb c = Inr (TextEncoder_encode plaintext)"
    using c by (rule contract_decrypt)
  from Pair r have "getKey W s' = (Inr k, s')" by (simp add: getKey_again)
  then have "getKey W s1 = (Inr k, s1)"
    unfolding s1 by (rule getKey_bytes_drawn)
  moreover have "base64ToArrayBuffer (iv p) = Inr ?ivb"
    by (simp only: p EncryptedData.select_convs base64_roundtrip(2))
  moreover have "base64ToArrayBuffer (data p) = Inr c"
    by (simp only: p EncryptedData.select_convs base64_roundtrip(2))
  ultimately show ?thesis
    using d by (simp only: decrypt_def prod.case sum.case)
qed

lemma codec_bom:
  "TextDecoder_decode (TextEncoder_encode [0xFEFF, 0x61, 0x62, 0x63]) = [0x61, 0x62, 0x63]"
proof -
  have "TextEncoder_encode [0xFEFF, 0x61, 0x62, 0x63] = [0xEF, 0xBB, 0xBF, 0x61, 0x62, 0x63]"
    by (simp add: TextEncoder_encode_def utf8_bytes_def is_high_surrogate_def is_low_surrogate_def)
  moreover have "TextDecoder_decode [0xEF, 0xBB, 0xBF, 0x61, 0x62, 0x63] = [0x61, 0x62, 0x63]"
    by (simp add: TextDecoder_decode_def lead_byte_def decoder_init_def strip_bom_def
          utf16_units_def Let_def)
  ultimately show ?thesis by simp
qed

text \<open>
  C1. The round trip fails on the code: for the plaintext made of the code unit \<open>0xFEFF\<close> (a byte
  order mark) followed by \<open>abc\<close>, whenever \<open>encrypt\<close> succeeds, \<open>decrypt\<close> of its
  payload on the same service returns \<^verbatim>\<open>"abc"\<close>: \<^verbatim>\<open>new TextDecoder()\<close> drops the
  leading \<open>U+FEFF\<close>. (In general \<open>decrypt\<close> after \<open>encrypt\<close> returns
  \<^verbatim>\<open>decode(encode(plaintext))\<close>, lemma \<open>decrypt_encrypt\<close>.)
\<close>

theorem decrypt_encrypt_drops_bom:
  assumes "aead_contract W" and "encrypt W [0xFEFF, 0x61, 0x62, 0x63] s = (Inr p, s1)"
  shows "fst (decrypt W p s1) = Some [0x61, 0x62, 0x63]"
  using decrypt_encrypt [OF assms] by (simp add: codec_bom)

lemmas run_encrypt =
  encrypt_def getKey_def getKey_call_def getKey_resume_def ref_crypto_def new_CryptoService_def getRandomValues_def
  IV_LENGTH_def arrayBufferToBase64_def btoa_def b64_char_def pad_char_def lit_def
  TextEncoder_encode_def utf8_bytes_def is_high_surrogate_def is_low_surrogate_def Let_def
  upt_rec first_key_state_def clearKey_def ref_tag_def

lemma encrypt_bom_abc:
  "encrypt ref_crypto [0xFEFF, 0x61, 0x62, 0x63] new_CryptoService = (Inr bom_abc_payload, first_key_state)"
  by (simp add: run_encrypt bom_abc_payload_def)


theorem decrypt_encrypt_drops_bom_witness:
  "encrypt ref_crypto [0xFEFF, 0x61, 0x62, 0x63] new_CryptoService = (Inr bom_abc_payload, first_key_state)
   \<and> fst (decrypt ref_crypto bom_abc_payload first_key_state) = Some [0x61, 0x62, 0x63]"
  using decrypt_encrypt_drops_bom [OF ref_contract encrypt_bom_abc] encrypt_bom_abc by (intro conjI)


subsection \<open>Calls awaited at once\<close>



lemma generating_getKey_resume:
  "set (generating (getKey_resume W n s)) = set (generating s) - {n}"
  by (auto simp: getKey_resume_def split: sum.splits)

lemma settled_getKey_resume [simp]: "settled (getKey_resume W n s) (Generation n)"
  by (simp add: settled_def generating_getKey_resume)



subsection \<open>The keys in use\<close>























subsection \<open>After clearKey\<close>




















lemma length_after_Resume [simp]: "length (calls (after_event W (Resume j) r)) = length (calls r)"
  by (simp split: prod.splits)

















section \<open>SecureStorage\<close>

subsection \<open>Values, JSON and the storage backend\<close>

text \<open>
  The values a caller can hand to \<open>set\<close> and get back from \<open>get\<close>. Numbers are
  IEEE doubles in JavaScript; their type \<open>'n\<close> is left open. An object is the list of
  its own properties; \<open>BigInt\<close> stands for the values \<^verbatim>\<open>JSON.stringify\<close> throws
  on.
\<close>

datatype 'n jsvalue =
    Undefined | Null | Boolean bool | Number 'n | BigInt int | String jsstring
  | Array "'n jsvalue list" | Object "(jsstring \<times> 'n jsvalue) list"

text \<open>
  \<^verbatim>\<open>JSON.stringify\<close> and \<^verbatim>\<open>JSON.parse\<close> are built into the language; they are
  parameters of the model, with the three ways \<^verbatim>\<open>JSON.stringify\<close> can end (it
  throws, it returns \<^verbatim>\<open>undefined\<close>, it returns a string). So are the truth value of
  a number and the conversion of a value that is not a string to a string.
\<close>

record 'n js_builtins =
  JSON_stringify :: "'n jsvalue \<Rightarrow> error + jsstring option"
  JSON_parse :: "jsstring \<Rightarrow> error + 'n jsvalue"
  Number_truthy :: "'n \<Rightarrow> bool"
  ToString :: "'n jsvalue \<Rightarrow> error + jsstring"

text \<open>
  \<^verbatim>\<open>interface StorageAdapter\<close> of types.ts, over a backend state \<open>'b\<close>; each
  method may throw.
\<close>

record 'b StorageAdapter =
  getItem :: "jsstring \<Rightarrow> 'b \<Rightarrow> error + jsstring option"
  setItem :: "jsstring \<Rightarrow> jsstring \<Rightarrow> 'b \<Rightarrow> error + 'b"
  removeItem :: "jsstring \<Rightarrow> 'b \<Rightarrow> error + 'b"

text \<open>The conversion to boolean that \<^verbatim>\<open>!x\<close> applies.\<close>

fun truthy :: "'n js_builtins \<Rightarrow> 'n jsvalue \<Rightarrow> bool" where
  "truthy J Undefined = False"
| "truthy J Null = False"
| "truthy J (Boolean b) = b"
| "truthy J (Number n) = Number_truthy J n"
| "truthy J (BigInt i) = (i \<noteq> 0)"
| "truthy J (String s) = (s \<noteq> [])"
| "truthy J (Array xs) = True"
| "truthy J (Object ps) = True"

text \<open>
  Reading the property \<^verbatim>\<open>data\<close> or \<^verbatim>\<open>iv\<close> of a value: a \<^verbatim>\<open>TypeError\<close> on
  \<^verbatim>\<open>null\<close> and \<^verbatim>\<open>undefined\<close>, the property of an object if it has it, and
  \<^verbatim>\<open>undefined\<close> otherwise (no primitive and no array has a property of these names).
\<close>

fun get_property :: "'n jsvalue \<Rightarrow> jsstring \<Rightarrow> error + 'n jsvalue" where
  "get_property Undefined name = Inl TypeError"
| "get_property Null name = Inl TypeError"
| "get_property (Object ps) name = (case map_of ps name of Some v \<Rightarrow> Inr v | None \<Rightarrow> Inr Undefined)"
| "get_property _ name = Inr Undefined"

text \<open>The argument of \<^verbatim>\<open>atob\<close> is converted to a string; a string is itself.\<close>

fun to_string :: "'n js_builtins \<Rightarrow> 'n jsvalue \<Rightarrow> error + jsstring" where
  "to_string J (String s) = Inr s"
| "to_string J v = ToString J v"


subsection \<open>The store\<close>

text \<open>
  A store is constructed from a \<open>CryptoService\<close>, a backend and a prefix. Its state is
  the state of the two; the browser's Web Crypto \<open>W\<close>, the built-ins \<open>J\<close>, the
  adapter \<open>B\<close> and the prefix are fixed.
\<close>

record ('k, 'b) store =
  crypto :: "'k CryptoService"
  backend :: 'b


text \<open>
  \<open>crypto.decrypt(parsed)\<close> on a parsed value: inside the \<^verbatim>\<open>try\<close> of \<open>decrypt\<close>,
  after the key has been obtained, \<^verbatim>\<open>atob\<close> converts \<^verbatim>\<open>parsed.iv\<close> and then
  \<^verbatim>\<open>parsed.data\<close> to strings. \<open>None\<close> is \<^verbatim>\<open>null\<close>.
\<close>

definition decrypt_parsed ::
  "'k web_crypto \<Rightarrow> 'n js_builtins \<Rightarrow> 'n jsvalue \<Rightarrow> 'n jsvalue \<Rightarrow> 'k CryptoService \<Rightarrow>
   jsstring option \<times> 'k CryptoService"
where
  "decrypt_parsed W J iv_value data_value c =
     (case to_string J iv_value of
        Inl e \<Rightarrow> (None, snd (getKey W c))
      | Inr iv_string \<Rightarrow>
          (case to_string J data_value of
             Inl e \<Rightarrow> (None, snd (getKey W c))
           | Inr data_string \<Rightarrow> decrypt W \<lparr> iv = iv_string, data = data_string \<rparr> c))"

text \<open>The \<^verbatim>\<open>try\<close> block of \<open>get\<close>; \<open>Inl\<close> is an exception thrown inside it.\<close>

definition get_try ::
  "'k web_crypto \<Rightarrow> 'n js_builtins \<Rightarrow> 'b StorageAdapter \<Rightarrow> jsstring \<Rightarrow>
   jsstring \<Rightarrow> ('k, 'b) store \<Rightarrow> (error + 'n jsvalue) \<times> ('k, 'b) store"
where
  "get_try W J B prefix k st =
     (case getItem B (prefix @ k) (backend st) of
        Inl e \<Rightarrow> (Inl e, st)
      | Inr None \<Rightarrow> (Inr Null, st)
      | Inr (Some item) \<Rightarrow>
          if item = [] then (Inr Null, st)
          else
            (case JSON_parse J item of
               Inl e \<Rightarrow> (Inl e, st)
             | Inr parsed \<Rightarrow>
                 (case get_property parsed (lit ''data'') of
                    Inl e \<Rightarrow> (Inl e, st)
                  | Inr data_value \<Rightarrow>
                      if \<not> truthy J data_value then (Inr Null, st)
                      else
                        (case get_property parsed (lit ''iv'') of
                           Inl e \<Rightarrow> (Inl e, st)
                         | Inr iv_value \<Rightarrow>
                             if \<not> truthy J iv_value then (Inr Null, st)
                             else
                               (case decrypt_parsed W J iv_value data_value (crypto st) of
                                  (None, c1) \<Rightarrow> (Inr Null, st\<lparr> crypto := c1 \<rparr>)
                                | (Some decryptedJson, c1) \<Rightarrow>
                                    if decryptedJson = [] then (Inr Null, st\<lparr> crypto := c1 \<rparr>)
                                    else (JSON_parse J decryptedJson, st\<lparr> crypto := c1 \<rparr>))))))"

text \<open>\<open>get\<close>: the \<^verbatim>\<open>catch\<close> logs the error and returns \<^verbatim>\<open>null\<close>.\<close>

definition storage_get ::
  "'k web_crypto \<Rightarrow> 'n js_builtins \<Rightarrow> 'b StorageAdapter \<Rightarrow> jsstring \<Rightarrow>
   jsstring \<Rightarrow> ('k, 'b) store \<Rightarrow> 'n jsvalue \<times> ('k, 'b) store"
where
  "storage_get W J B prefix k st =
     (case get_try W J B prefix k st of
        (Inl e, st1) \<Rightarrow> (Null, st1)
      | (Inr v, st1) \<Rightarrow> (v, st1))"



subsection \<open>An instance of the built-ins\<close>














































subsection \<open>Properties of the store\<close>



lemma get_empty:
  "getItem B (prefix @ k) (backend st) = Inr (Some []) \<Longrightarrow> fst (storage_get W J B prefix k st) = Null"
  by (simp add: storage_get_def get_try_def)




















end
